theory Spec2Isabelle
  imports Complex_Main
begin

section \<open>Python lists and their index errors\<close>

text \<open>
  The clustering core of \<^verbatim>\<open>sumac.py\<close> works on Python lists of lists. Distances are Python
  numbers that the code only compares and copies (\<^verbatim>\<open>99\<close>, \<^verbatim>\<open>50.0\<close>, \<^verbatim>\<open>10.0\<close>, \<^verbatim>\<open>0.0\<close> and
  BLAST e-values); they are modelled as reals. All indices the code computes are
  non-negative, so an index is a \<open>nat\<close> and an access outside the list raises
  \<^verbatim>\<open>IndexError\<close>. \<^verbatim>\<open>RuntimeError\<close> is what Python 2.7 raises when the recursion limit is
  passed ("maximum recursion depth exceeded"). The matrix is a \<^verbatim>\<open>multiprocessing.Manager().list()\<close> of rows:
  \<^verbatim>\<open>distance_matrix[i]\<close> hands out a copy of row \<open>i\<close> and \<^verbatim>\<open>distance_matrix[i] = row\<close> stores
  one, so rows never alias and the matrix is a value of type \<open>real list list\<close>.
\<close>

datatype error = IndexError | RuntimeError

type_synonym matrix = "real list list"

definition then_err :: "error + 'a \<Rightarrow> ('a \<Rightarrow> error + 'b) \<Rightarrow> error + 'b" where
  "then_err r f = (case r of Inl e \<Rightarrow> Inl e | Inr a \<Rightarrow> f a)"

text \<open>\<^verbatim>\<open>distance_matrix[x][y]\<close>\<close>

definition cell :: "matrix \<Rightarrow> nat \<Rightarrow> nat \<Rightarrow> error + real" where
  "cell m x y = (if x < length m \<and> y < length (m ! x) then Inr (m ! x ! y) else Inl IndexError)"

text \<open>\<^verbatim>\<open>row = distance_matrix[r]; row[c] = v; distance_matrix[r] = row\<close>\<close>

definition set_cell :: "matrix \<Rightarrow> nat \<Rightarrow> nat \<Rightarrow> real \<Rightarrow> error + matrix" where
  "set_cell m r c v =
     (if r < length m \<and> c < length (m ! r) then Inr (m[r := (m ! r)[c := v]]) else Inl IndexError)"

text \<open>\<^verbatim>\<open>del xs[i]\<close>, once \<open>i\<close> is known to be in range\<close>

definition del_at :: "nat \<Rightarrow> 'a list \<Rightarrow> 'a list" where
  "del_at i xs = take i xs @ drop (Suc i) xs"

section \<open>The scan of \<^verbatim>\<open>merge_closest_clusters\<close>\<close>

text \<open>
  The three variables the scan maintains, \<^verbatim>\<open>(min_distance, cluster1, cluster2)\<close>, start at
  \<^verbatim>\<open>(99, 0, 0)\<close>. \<open>scan_inner\<close> is the loop \<^verbatim>\<open>while y < len(distance_matrix)\<close> of row \<open>x\<close>,
  \<open>scan_outer\<close> the loop \<^verbatim>\<open>while x < len(distance_matrix)\<close>; a \<^verbatim>\<open>break\<close> returns at once.
\<close>

type_synonym pick = "real \<times> nat \<times> nat"

function scan_inner :: "matrix \<Rightarrow> nat \<Rightarrow> nat \<Rightarrow> pick \<Rightarrow> error + pick" where
  "scan_inner m x y (md, c1, c2) =
     (if y < length m then
        (if x \<noteq> y then
           then_err (cell m x y) (\<lambda>d.
             let p = (if d < md then (d, x, y) else (md, c1, c2))
             in if fst p = 0 then Inr p else scan_inner m x (y + 1) p)
         else scan_inner m x (y + 1) (md, c1, c2))
      else Inr (md, c1, c2))"
  by pat_completeness auto
termination
  by (relation "measure (\<lambda>(m, x, y, p). length m - y)") auto

function scan_outer :: "matrix \<Rightarrow> nat \<Rightarrow> pick \<Rightarrow> error + pick" where
  "scan_outer m x p =
     (if x < length m then
        then_err (scan_inner m x (x + 1) p) (\<lambda>p'.
          if fst p' = 0 then Inr p' else scan_outer m (x + 1) p')
      else Inr p)"
  by pat_completeness auto
termination
  by (relation "measure (\<lambda>(m, x, p). length m - x)") auto

definition find_closest :: "matrix \<Rightarrow> error + pick" where
  "find_closest m = scan_outer m 0 (99, 0, 0)"

section \<open>The merge of \<^verbatim>\<open>merge_closest_clusters\<close>\<close>

text \<open>
  \<^verbatim>\<open>for sequence in clusters[cluster2]: clusters[cluster1].append(sequence)\<close>. A Python list
  iterator keeps a position \<open>k\<close> and stops when \<open>k\<close> reaches the current length of the list
  it walks. The clusters are separate list objects (\<^verbatim>\<open>make_clusters\<close> creates one fresh list
  per key), so the list walked grows only when \<open>c1 = c2\<close>; then the loop never ends, which
  is the value \<open>None\<close>.
\<close>

partial_function (option) extend_cluster ::
  "'k list list \<Rightarrow> nat \<Rightarrow> nat \<Rightarrow> nat \<Rightarrow> (error + 'k list list) option" where
  "extend_cluster clusters c1 c2 k =
     (if k < length (clusters ! c2) then
        (if c1 < length clusters
         then extend_cluster (clusters[c1 := clusters ! c1 @ [clusters ! c2 ! k]]) c1 c2 (Suc k)
         else Some (Inl IndexError))
      else Some (Inr clusters))"

declare extend_cluster.simps [code]

text \<open>One round of the loop \<^verbatim>\<open>for i in range(len(distance_matrix[cluster1]))\<close>.\<close>

definition update_cell :: "nat \<Rightarrow> nat \<Rightarrow> nat \<Rightarrow> matrix \<Rightarrow> error + matrix" where
  "update_cell c1 c2 i m =
     then_err (cell m c1 i) (\<lambda>a.
     then_err (cell m c2 i) (\<lambda>b.
       if a > b then
         then_err (cell m c2 i) (\<lambda>v.
         then_err (set_cell m c1 i v) (\<lambda>m1.
         then_err (if i < length m1 then cell m1 c2 i else Inl IndexError) (\<lambda>v'.
         set_cell m1 i c1 v')))
       else Inr m))"

fun update_loop :: "nat \<Rightarrow> nat \<Rightarrow> nat list \<Rightarrow> matrix \<Rightarrow> error + matrix" where
  "update_loop c1 c2 [] m = Inr m"
| "update_loop c1 c2 (i # is) m = then_err (update_cell c1 c2 i m) (update_loop c1 c2 is)"

text \<open>\<^verbatim>\<open>for i in range(len(distance_matrix)): row = distance_matrix[i]; del row[cluster2]; ...\<close>\<close>

fun delete_column :: "nat \<Rightarrow> matrix \<Rightarrow> error + matrix" where
  "delete_column c [] = Inr []"
| "delete_column c (row # rows) =
     (if c < length row
      then then_err (delete_column c rows) (\<lambda>rows'. Inr (del_at c row # rows'))
      else Inl IndexError)"

definition update_distance_matrix :: "matrix \<Rightarrow> nat \<Rightarrow> nat \<Rightarrow> error + matrix" where
  "update_distance_matrix m c1 c2 =
     (if c1 < length m then
        then_err (update_loop c1 c2 [0..<length (m ! c1)] m) (\<lambda>m1.
          if c2 < length m1 then delete_column c2 (del_at c2 m1) else Inl IndexError)
      else Inl IndexError)"

text \<open>
  The body of \<^verbatim>\<open>merge_closest_clusters\<close> up to its last line: it either returns the
  clusters or reaches the recursive call with the merged clusters and the smaller matrix.
\<close>

datatype 'k outcome = Return "'k list list" | Recurse "'k list list" matrix

definition merge_pass :: "'k list list \<Rightarrow> matrix \<Rightarrow> real \<Rightarrow> (error + 'k outcome) option" where
  "merge_pass clusters m threshold =
     (case find_closest m of
        Inl e \<Rightarrow> Some (Inl e)
      | Inr (min_distance, cluster1, cluster2) \<Rightarrow>
          if min_distance > threshold then Some (Inr (Return clusters))
          else if cluster2 < length clusters then
            (case extend_cluster clusters cluster1 cluster2 0 of
               None \<Rightarrow> None
             | Some (Inl e) \<Rightarrow> Some (Inl e)
             | Some (Inr merged) \<Rightarrow>
                 (case update_distance_matrix m cluster1 cluster2 of
                    Inl e \<Rightarrow> Some (Inl e)
                  | Inr m' \<Rightarrow> Some (Inr (Recurse (del_at cluster2 merged) m'))))
          else Some (Inl IndexError))"

text \<open>
  The function calls itself once per merge, and every call takes a frame of the
  interpreter's stack; nothing in the program changes the recursion limit
  (\<^verbatim>\<open>sys.getrecursionlimit()\<close>, 1000 by default). \<open>depth\<close> is the number of nested calls of
  \<^verbatim>\<open>merge_closest_clusters\<close> that still fit under that limit, the frames of the callers and
  those the body itself needs being taken off: a call made when none fits raises
  \<^verbatim>\<open>RuntimeError\<close>. \<open>None\<close> stands for a call that never returns.
\<close>

fun merge_closest_clusters ::
  "nat \<Rightarrow> 'k list list \<Rightarrow> matrix \<Rightarrow> real \<Rightarrow> (error + 'k list list) option" where
  "merge_closest_clusters 0 clusters m threshold = Some (Inl RuntimeError)"
| "merge_closest_clusters (Suc depth) clusters m threshold =
     (case merge_pass clusters m threshold of
        None \<Rightarrow> None
      | Some (Inl e) \<Rightarrow> Some (Inl e)
      | Some (Inr (Return cs)) \<Rightarrow> Some (Inr cs)
      | Some (Inr (Recurse cs m')) \<Rightarrow> merge_closest_clusters depth cs m' threshold)"


section \<open>Notions used to state the properties of the clustering engine\<close>

text \<open>
  The index pairs \<open>x < y\<close> below \<open>n\<close> in row-major order: \<open>x\<close> ascending, and for each \<open>x\<close>
  the \<open>y\<close> ascending.
\<close>

definition row_major_pairs :: "nat \<Rightarrow> (nat \<times> nat) list" where
  "row_major_pairs n = concat (map (\<lambda>x. map (Pair x) [x + 1..<n]) [0..<n])"

text \<open>
  The scan as the specification words it: walk a list of pairs, replace the minimum when a
  strictly smaller distance is met, and stop at once when the minimum is exactly 0.
\<close>

fun scan_pairs :: "matrix \<Rightarrow> (nat \<times> nat) list \<Rightarrow> pick \<Rightarrow> error + pick" where
  "scan_pairs m [] p = Inr p"
| "scan_pairs m ((x, y) # ps) (md, c1, c2) =
     then_err (cell m x y) (\<lambda>d.
       let p = (if d < md then (d, x, y) else (md, c1, c2))
       in if fst p = 0 then Inr p else scan_pairs m ps p)"

text \<open>"Lowest \<open>x\<close>, then lowest \<open>y\<close>": the order in which the scan meets the pairs.\<close>

definition lex_less :: "nat \<times> nat \<Rightarrow> nat \<times> nat \<Rightarrow> bool" where
  "lex_less p q = (fst p < fst q \<or> (fst p = fst q \<and> snd p < snd q))"

text \<open>An \<open>n \<times> n\<close> matrix: \<open>n\<close> rows of length \<open>n\<close>.\<close>

definition square :: "nat \<Rightarrow> matrix \<Rightarrow> bool" where
  "square n m = (length m = n \<and> (\<forall>r<n. length (m ! r) = n))"

text \<open>
  Deleting index \<open>c\<close> moves every later index down by one: \<open>shifted c k\<close> is the old index
  found at position \<open>k\<close> after the deletion, \<open>new_index c k\<close> the position at which the old
  index \<open>k \<noteq> c\<close> is found.
\<close>

definition shifted :: "nat \<Rightarrow> nat \<Rightarrow> nat" where
  "shifted c k = (if k < c then k else Suc k)"


text \<open>
  The cell \<open>(r, c)\<close> of the matrix after the rounds \<open>i < j\<close> of the update loop for a merge
  of \<open>c2\<close> into \<open>c1\<close>, in terms of the matrix \<open>m\<close> before the loop.
\<close>

definition linked :: "matrix \<Rightarrow> nat \<Rightarrow> nat \<Rightarrow> nat \<Rightarrow> nat \<Rightarrow> nat \<Rightarrow> real" where
  "linked m c1 c2 j r c =
     (if r = c1 \<and> c < j \<and> m ! c1 ! c > m ! c2 ! c then m ! c2 ! c
      else if c = c1 \<and> r < j \<and> m ! c1 ! r > m ! c2 ! r then m ! c2 ! r
      else m ! r ! c)"

section \<open>The sequence store and BLAST\<close>

text \<open>
  The workers read two things from outside: the length of a stored sequence,
  \<^verbatim>\<open>len(gb[key].seq)\<close>, and the parsed output of a \<^verbatim>\<open>blastn\<close> run on a subject and a
  query. Both are parameters of the model (\<open>seq_len\<close>, \<open>blastn\<close>); the keys come from
  \<^verbatim>\<open>gb.keys()\<close>, so every lookup succeeds. A BLAST record lists alignments, an alignment
  lists HSPs, and the only field of an HSP that is read is its e-value \<^verbatim>\<open>expect\<close>. The
  temporary FASTA and XML files of a worker are not modelled.
\<close>

datatype alignment = Alignment (hsps: "real list")

datatype blast_record = Blast_record (alignments: "alignment list")

section \<open>Double-precision arithmetic\<close>

text \<open>
  The length tests multiply a length by \<^verbatim>\<open>1 + float(length_threshold)\<close> or
  \<^verbatim>\<open>1 - float(length_threshold)\<close> in IEEE 754 double precision: every operation returns
  the double nearest to the exact result, ties going to the even significand. \<open>double x\<close>
  is that double: for \<open>2 ^ k \<le> x < 2 ^ (k + 1)\<close> the doubles are the multiples of
  \<open>2 ^ (k - 52)\<close>. The exponent range is not modelled (no overflow, no subnormal numbers);
  sequence lengths and thresholds stay far inside it.
\<close>

fun bit_length :: "nat \<Rightarrow> nat" where
  "bit_length n = (if n = 0 then 0 else Suc (bit_length (n div 2)))"

declare bit_length.simps [simp del]

definition pow2 :: "int \<Rightarrow> real" where
  "pow2 e = (if 0 \<le> e then 2 ^ nat e else 1 / 2 ^ nat (- e))"

text \<open>For \<open>x > 0\<close>, the \<open>k\<close> with \<open>2 ^ k \<le> x < 2 ^ (k + 1)\<close>.\<close>

definition binade :: "real \<Rightarrow> int" where
  "binade x =
     (if 1 \<le> x then int (bit_length (nat \<lfloor>x\<rfloor>)) - 1
      else (let j = int (bit_length (nat \<lfloor>1 / x\<rfloor>))
            in if x * pow2 (j - 1) = 1 then 1 - j else - j))"

definition round_half_even :: "real \<Rightarrow> int" where
  "round_half_even x =
     (let f = \<lfloor>x\<rfloor>; d = x - of_int f
      in if d < 1 / 2 then f else if 1 / 2 < d then f + 1 else if even f then f else f + 1)"

definition nearest_double :: "real \<Rightarrow> real" where
  "nearest_double x =
     of_int (round_half_even (x / pow2 (binade x - 52))) * pow2 (binade x - 52)"

definition double :: "real \<Rightarrow> real" where
  "double x = (if x = 0 then 0 else if x < 0 then - nearest_double (- x) else nearest_double x)"

text \<open>
  The length test of \<^verbatim>\<open>distance_matrix_worker\<close>,
  \<^verbatim>\<open>length1 > length2 * (1 + float(length_threshold)) or length1 < length2 * (1 - float(length_threshold))\<close>,
  with \<open>length1\<close> the length of the sequence of the row being processed and \<open>length2\<close>
  that of the column. \<open>length_threshold\<close> is the number given (0.5, or the text of the
  \<^verbatim>\<open>--length\<close> option) and \<^verbatim>\<open>float\<close> makes it a double; the integer \<open>length2\<close> becomes a
  double before the product; Python compares the integer \<open>length1\<close> with the product
  exactly.
\<close>

definition length_gate_fails :: "nat \<Rightarrow> nat \<Rightarrow> real \<Rightarrow> bool" where
  "length_gate_fails length1 length2 length_threshold =
     (real length1 > double (double (real length2) * double (1 + double length_threshold)) \<or>
      real length1 < double (double (real length2) * double (1 - double length_threshold)))"

text \<open>The length test of \<^verbatim>\<open>make_guided_clusters_worker\<close>, \<open>length1\<close> being the guide's.\<close>

definition guide_gate_passes :: "nat \<Rightarrow> nat \<Rightarrow> real \<Rightarrow> bool" where
  "guide_gate_passes length1 length2 length_threshold =
     (real length1 < double (double (real length2) * double (1 + double length_threshold)) \<and>
      real length1 > double (double (real length2) * double (1 - double length_threshold)))"

section \<open>A pool of worker processes\<close>

text \<open>
  Both builders start \<^verbatim>\<open>multiprocessing.cpu_count()\<close> processes that run the same worker
  function on shared manager lists, and join them. A step of the pool is a step of one
  worker, which takes the shared state and its own position to the new shared state and
  position; a schedule names the worker that moves next, so the runs of the pool are the
  runs along all schedules. How much of its code a worker runs in one step is said with
  each worker.
\<close>

type_synonym ('s, 'p) pool = "'s \<times> 'p list"

definition pool_step :: "('s \<Rightarrow> 'p \<Rightarrow> 's \<times> 'p) \<Rightarrow> ('s, 'p) pool \<Rightarrow> nat \<Rightarrow> ('s, 'p) pool" where
  "pool_step work pool w =
     (if w < length (snd pool)
      then (fst (work (fst pool) (snd pool ! w)), (snd pool)[w := snd (work (fst pool) (snd pool ! w))])
      else pool)"

definition run_pool ::
  "('s \<Rightarrow> 'p \<Rightarrow> 's \<times> 'p) \<Rightarrow> nat list \<Rightarrow> ('s, 'p) pool \<Rightarrow> ('s, 'p) pool" where
  "run_pool work schedule pool = foldl (pool_step work) pool schedule"

section \<open>The all-pairs builder \<^verbatim>\<open>make_distance_matrix\<close>\<close>

record 'k matrix_build =
  dist_matrix :: matrix
  already_compared :: "'k list"
  blast_calls :: "('k \<times> 'k) list"

text \<open>
  \<open>blast_calls\<close> lists the \<^verbatim>\<open>blastn_cmd()\<close> invocations as (subject, query), in the order
  made. The matrix is the \<open>n \<times> n\<close> list that \<^verbatim>\<open>make_distance_matrix\<close> creates and every
  index used is below \<open>n = len(seq_keys)\<close>, so no access leaves it.
\<close>

text \<open>
  The worker changes the matrix through its local variable \<^verbatim>\<open>row\<close>, outside the lock:
  \<open>Get r\<close> is \<^verbatim>\<open>row = dist_matrix[r]\<close>, which copies row \<open>r\<close> out of the manager, and
  \<open>Put r c v\<close> is \<^verbatim>\<open>row[c] = v; dist_matrix[r] = row\<close>, which stores the changed copy as
  row \<open>r\<close>.
\<close>

datatype list_op = Get nat | Put nat nat real

fun perform :: "list_op \<Rightarrow> matrix \<Rightarrow> real list \<Rightarrow> matrix \<times> real list" where
  "perform (Get r) m row = (m, m ! r)"
| "perform (Put r c v) m row = (m[r := row[c := v]], row[c := v])"

text \<open>The six lines that write \<open>v\<close> to \<open>(i, j)\<close> and to \<open>(j, i)\<close>.\<close>

definition pair_writes :: "nat \<Rightarrow> nat \<Rightarrow> real \<Rightarrow> list_op list" where
  "pair_writes i j v = [Get i, Put i j v, Get j, Put j i v]"

text \<open>
  \<^verbatim>\<open>for blast_record in blast_records\<close>: a record with alignments sets the distance to the
  e-value of the first HSP of the first alignment when that alignment has HSPs, and
  writes nothing when it has none; a record without alignments sets the distance to 10.0
  (the \<^verbatim>\<open>else\<close> belongs to \<^verbatim>\<open>if blast_record.alignments\<close>).
\<close>

fun record_writes :: "blast_record list \<Rightarrow> nat \<Rightarrow> nat \<Rightarrow> list_op list" where
  "record_writes [] i j = []"
| "record_writes (r # rs) i j =
     (if alignments r \<noteq> [] then
        (if hsps (hd (alignments r)) \<noteq> []
         then pair_writes i j (hd (hsps (hd (alignments r))))
         else [])
      else pair_writes i j 10) @ record_writes rs i j"

text \<open>
  What a round of \<^verbatim>\<open>for key2 in seq_keys\<close> at row \<open>i\<close> and column \<open>j\<close> decides once it has
  found 99 in the cell: the list operations to come, and the \<^verbatim>\<open>blastn\<close> run when the keys
  differ and the length test does not fail.
\<close>

definition compare_pair ::
  "('k \<Rightarrow> nat) \<Rightarrow> ('k \<Rightarrow> 'k \<Rightarrow> blast_record list) \<Rightarrow> 'k list \<Rightarrow> real \<Rightarrow> nat \<Rightarrow> nat \<Rightarrow>
   'k matrix_build \<Rightarrow> 'k matrix_build \<times> list_op list" where
  "compare_pair seq_len blastn seq_keys length_threshold i j s =
     (if seq_keys ! i = seq_keys ! j then (s, [Get i, Put i j 0])
      else if length_gate_fails (seq_len (seq_keys ! i)) (seq_len (seq_keys ! j)) length_threshold
      then (s, pair_writes i j 50)
      else (s\<lparr>blast_calls := blast_calls s @ [(seq_keys ! i, seq_keys ! j)]\<rparr>,
            record_writes (blastn (seq_keys ! i) (seq_keys ! j)) i j))"

text \<open>
  The positions of a \<^verbatim>\<open>distance_matrix_worker\<close>: at the head of the loop over the keys at
  row \<open>i\<close>, where it takes the lock and tries to claim the row (\<open>Claim i\<close>); at the head of
  a round of the loop over the columns, about to read cell \<open>(i, j)\<close> (\<open>Test i j\<close>); inside
  a round with the list operations still to make and the value of \<^verbatim>\<open>row\<close>
  (\<open>Write i j ops row\<close>); past the loops (\<open>Exit\<close>). A step holds one block under
  \<^verbatim>\<open>with lock:\<close> or at most one operation on the shared matrix (the read of the cell, a
  \<open>Get\<close> or a \<open>Put\<close>); what the worker computes on its own after it, the \<^verbatim>\<open>blastn\<close> run
  included, belongs to the same step. Every \<open>Put\<close> comes after a \<open>Get\<close> of the same round,
  so a round starts with any value of \<^verbatim>\<open>row\<close>. The reads of \<^verbatim>\<open>len(already_compared)\<close> for
  the progress line change nothing and are left out.
\<close>

datatype row_position = Claim nat | Test nat nat | Write nat nat "list_op list" "real list" | Exit

definition distance_matrix_worker ::
  "('k \<Rightarrow> nat) \<Rightarrow> ('k \<Rightarrow> 'k \<Rightarrow> blast_record list) \<Rightarrow> 'k list \<Rightarrow> real \<Rightarrow>
   'k matrix_build \<Rightarrow> row_position \<Rightarrow> 'k matrix_build \<times> row_position" where
  "distance_matrix_worker seq_len blastn seq_keys length_threshold s p =
     (case p of
        Claim i \<Rightarrow>
          if i < length seq_keys then
            (if seq_keys ! i \<notin> set (already_compared s)
             then (s\<lparr>already_compared := already_compared s @ [seq_keys ! i]\<rparr>, Test i 0)
             else (s, Claim (i + 1)))
          else (s, Exit)
      | Test i j \<Rightarrow>
          if j < length seq_keys then
            (if dist_matrix s ! i ! j = 99
             then (fst (compare_pair seq_len blastn seq_keys length_threshold i j s),
                   Write i j (snd (compare_pair seq_len blastn seq_keys length_threshold i j s)) [])
             else (s, Test i (j + 1)))
          else (s, Claim (i + 1))
      | Write i j ops row \<Rightarrow>
          (case ops of
             [] \<Rightarrow> (s, Test i (j + 1))
           | op # rest \<Rightarrow>
               (s\<lparr>dist_matrix := fst (perform op (dist_matrix s) row)\<rparr>,
                Write i j rest (snd (perform op (dist_matrix s) row))))
      | Exit \<Rightarrow> (s, Exit))"

text \<open>
  \<^verbatim>\<open>make_distance_matrix\<close> up to the start of the processes: every cell, the diagonal
  included, holds 99, and \<open>num_cores\<close> workers stand at the first key.
\<close>

definition start_distance_matrix :: "'k list \<Rightarrow> nat \<Rightarrow> ('k matrix_build, row_position) pool" where
  "start_distance_matrix seq_keys num_cores =
     (\<lparr>dist_matrix = replicate (length seq_keys) (replicate (length seq_keys) 99),
       already_compared = [], blast_calls = []\<rparr>,
      replicate num_cores (Claim 0))"

definition build_distance_matrix ::
  "('k \<Rightarrow> nat) \<Rightarrow> ('k \<Rightarrow> 'k \<Rightarrow> blast_record list) \<Rightarrow> 'k list \<Rightarrow> real \<Rightarrow> nat \<Rightarrow> nat list \<Rightarrow>
   ('k matrix_build, row_position) pool" where
  "build_distance_matrix seq_len blastn seq_keys length_threshold num_cores schedule =
     run_pool (distance_matrix_worker seq_len blastn seq_keys length_threshold) schedule
       (start_distance_matrix seq_keys num_cores)"

text \<open>
  \<^verbatim>\<open>for p in processes: p.join()\<close> returns once every worker has left its loops. The value
  \<^verbatim>\<open>make_distance_matrix\<close> returns along a schedule is \<open>None\<close> when the schedule ends
  before that.
\<close>

definition make_distance_matrix ::
  "('k \<Rightarrow> nat) \<Rightarrow> ('k \<Rightarrow> 'k \<Rightarrow> blast_record list) \<Rightarrow> 'k list \<Rightarrow> real \<Rightarrow> nat \<Rightarrow> nat list \<Rightarrow>
   matrix option" where
  "make_distance_matrix seq_len blastn seq_keys length_threshold num_cores schedule =
     (let pool = build_distance_matrix seq_len blastn seq_keys length_threshold num_cores schedule
      in if list_all (\<lambda>p. p = Exit) (snd pool) then Some (dist_matrix (fst pool)) else None)"

section \<open>The guided builder \<^verbatim>\<open>make_guided_clusters\<close>\<close>

text \<open>
  The positions of a \<^verbatim>\<open>make_guided_clusters_worker\<close>: at the head of the loop over the
  guides at guide \<open>g\<close>, where it takes the lock and tries to claim the guide
  (\<open>Claiming g\<close>); at the head of a round of the loop over the keys (\<open>Comparing g k\<close>); past
  the loops (\<open>Finished\<close>). A step is one block under \<^verbatim>\<open>with lock:\<close> that claims a guide, or
  one round of the loop over the keys: a round changes the shared lists only by appending
  to the cluster of its own guide, each append a whole read, change and write under the
  lock, and no other worker reads or writes that cluster.
\<close>

datatype position = Claiming nat | Comparing nat nat | Finished

text \<open>\<^verbatim>\<open>for p in processes: p.join()\<close> returns once every worker has left its loops.\<close>

definition joined :: "('s, position) pool \<Rightarrow> bool" where
  "joined pool = list_all (\<lambda>p. p = Finished) (snd pool)"

record 'g guide =
  guide_id :: 'g
  guide_length :: nat

record ('g, 'k) guided_build =
  guide_clusters :: "'k list list"
  guides_compared :: "'g list"
  guide_blast_calls :: "('g \<times> 'k) list"

text \<open>
  A guide is a record of the guide FASTA file; its \<^verbatim>\<open>id\<close> and the length of its sequence
  are what the worker reads. \<open>guide_clusters\<close> is the shared list \<^verbatim>\<open>clusters\<close>,
  \<open>guides_compared\<close> the shared list \<^verbatim>\<open>already_compared\<close> of guide ids. The records of
  \<^verbatim>\<open>guide_sequences\<close> are distinct objects, so \<^verbatim>\<open>guide_sequences.index(guide)\<close> is the
  position \<open>g\<close> of the guide in the list.
\<close>

text \<open>
  \<^verbatim>\<open>for blast_record in blast_records\<close> of the guided worker: under the lock, each record
  with a hit appends the key to the cluster of guide \<open>g\<close>.
\<close>

fun record_hits :: "blast_record list \<Rightarrow> nat \<Rightarrow> 'k \<Rightarrow> 'k list list \<Rightarrow> 'k list list" where
  "record_hits [] g key cl = cl"
| "record_hits (r # rs) g key cl =
     record_hits rs g key
       (if alignments r \<noteq> [] \<and> hsps (hd (alignments r)) \<noteq> []
        then cl[g := cl ! g @ [key]]
        else cl)"

text \<open>One round of \<^verbatim>\<open>for key in all_seq_keys\<close>, at guide \<open>g\<close> and candidate \<open>k\<close>.\<close>

definition compare_candidate ::
  "('k \<Rightarrow> nat) \<Rightarrow> ('g guide \<Rightarrow> 'k \<Rightarrow> blast_record list) \<Rightarrow> 'g guide list \<Rightarrow> 'k list \<Rightarrow> real \<Rightarrow>
   nat \<Rightarrow> nat \<Rightarrow> ('g, 'k) guided_build \<Rightarrow> ('g, 'k) guided_build" where
  "compare_candidate seq_len blastn guide_sequences all_seq_keys length_threshold g k s =
     (if guide_gate_passes (guide_length (guide_sequences ! g)) (seq_len (all_seq_keys ! k))
           length_threshold
      then s\<lparr>guide_clusters :=
               record_hits (blastn (guide_sequences ! g) (all_seq_keys ! k)) g (all_seq_keys ! k)
                 (guide_clusters s),
             guide_blast_calls :=
               guide_blast_calls s @ [(guide_id (guide_sequences ! g), all_seq_keys ! k)]\<rparr>
      else s)"

definition make_guided_clusters_worker ::
  "('k \<Rightarrow> nat) \<Rightarrow> ('g guide \<Rightarrow> 'k \<Rightarrow> blast_record list) \<Rightarrow> 'g guide list \<Rightarrow> 'k list \<Rightarrow> real \<Rightarrow>
   ('g, 'k) guided_build \<Rightarrow> position \<Rightarrow> ('g, 'k) guided_build \<times> position" where
  "make_guided_clusters_worker seq_len blastn guide_sequences all_seq_keys length_threshold s p =
     (case p of
        Claiming g \<Rightarrow>
          if g < length guide_sequences then
            (if guide_id (guide_sequences ! g) \<notin> set (guides_compared s)
             then (s\<lparr>guides_compared := guides_compared s @ [guide_id (guide_sequences ! g)]\<rparr>,
                   Comparing g 0)
             else (s, Claiming (g + 1)))
          else (s, Finished)
      | Comparing g k \<Rightarrow>
          if k < length all_seq_keys
          then (compare_candidate seq_len blastn guide_sequences all_seq_keys length_threshold g k s,
                Comparing g (k + 1))
          else (s, Claiming (g + 1))
      | Finished \<Rightarrow> (s, Finished))"

text \<open>
  \<^verbatim>\<open>make_guided_clusters\<close> up to the start of the processes. The guide file is \<open>None\<close>
  when \<^verbatim>\<open>os.path.isfile(guide_seq)\<close> is false; then the function prints a message and
  leaves through \<^verbatim>\<open>sys.exit(0)\<close>. Otherwise it appends one empty cluster per guide and
  starts \<open>num_cores\<close> workers, without looking at the number of guides.
\<close>

datatype stop = Guide_file_not_found | No_clusters_found

definition guided_pool :: "'g guide list \<Rightarrow> nat \<Rightarrow> (('g, 'k) guided_build, position) pool" where
  "guided_pool guide_sequences num_cores =
     (\<lparr>guide_clusters = replicate (length guide_sequences) [],
       guides_compared = [], guide_blast_calls = []\<rparr>,
      replicate num_cores (Claiming 0))"


definition build_guided_clusters ::
  "('k \<Rightarrow> nat) \<Rightarrow> ('g guide \<Rightarrow> 'k \<Rightarrow> blast_record list) \<Rightarrow> 'g guide list \<Rightarrow> 'k list \<Rightarrow>
   real \<Rightarrow> nat \<Rightarrow> nat list \<Rightarrow> (('g, 'k) guided_build, position) pool" where
  "build_guided_clusters seq_len blastn guide_sequences all_seq_keys length_threshold num_cores
     schedule =
     run_pool
       (make_guided_clusters_worker seq_len blastn guide_sequences all_seq_keys length_threshold)
       schedule (guided_pool guide_sequences num_cores)"

text \<open>
  The value \<^verbatim>\<open>make_guided_clusters\<close> returns along a schedule; \<open>None\<close> when the schedule
  ends before the processes are joined.
\<close>

definition make_guided_clusters ::
  "('k \<Rightarrow> nat) \<Rightarrow> ('g guide \<Rightarrow> 'k \<Rightarrow> blast_record list) \<Rightarrow> 'g guide list option \<Rightarrow> 'k list \<Rightarrow>
   real \<Rightarrow> nat \<Rightarrow> nat list \<Rightarrow> (stop + 'k list list) option" where
  "make_guided_clusters seq_len blastn guide_seq all_seq_keys length_threshold num_cores schedule =
     (case guide_seq of
        None \<Rightarrow> Some (Inl Guide_file_not_found)
      | Some guide_sequences \<Rightarrow>
          (let pool = build_guided_clusters seq_len blastn guide_sequences all_seq_keys
                        length_threshold num_cores schedule
           in if joined pool then Some (Inr (guide_clusters (fst pool))) else None))"


section \<open>Notions used to state the properties of the builders\<close>

text \<open>
  Symmetric, non-negative square matrices, and those among them with a zero diagonal.
\<close>

definition distances :: "nat \<Rightarrow> matrix \<Rightarrow> bool" where
  "distances n m =
     (square n m \<and> (\<forall>r<n. \<forall>c<n. m ! r ! c = m ! c ! r) \<and> (\<forall>r<n. \<forall>c<n. 0 \<le> m ! r ! c))"

definition well_formed :: "nat \<Rightarrow> matrix \<Rightarrow> bool" where
  "well_formed n m = (distances n m \<and> (\<forall>r<n. m ! r ! r = 0))"

text \<open>
  The row whose comparison loop (\<^verbatim>\<open>for key2 in seq_keys\<close>) a worker is inside of, if it is
  inside one.
\<close>

fun row_of :: "row_position \<Rightarrow> nat option" where
  "row_of (Claim i) = None"
| "row_of (Test i j) = Some i"
| "row_of (Write i j ops row) = Some i"
| "row_of Exit = None"

text \<open>
  Invariant of the pool of \<^verbatim>\<open>distance_matrix_worker\<close> processes: a worker inside the
  comparison loop of row \<open>i\<close> has put the key of row \<open>i\<close> into \<^verbatim>\<open>already_compared\<close>, and no
  two workers are inside the loop of the same row.
\<close>

definition rows_owned :: "'k list \<Rightarrow> ('k matrix_build, row_position) pool \<Rightarrow> bool" where
  "rows_owned seq_keys pool =
     ((\<forall>w<length (snd pool). \<forall>i. row_of (snd pool ! w) = Some i \<longrightarrow>
          i < length seq_keys \<and> seq_keys ! i \<in> set (already_compared (fst pool))) \<and>
      (\<forall>w1<length (snd pool). \<forall>w2<length (snd pool). \<forall>i.
          row_of (snd pool ! w1) = Some i \<and> row_of (snd pool ! w2) = Some i \<longrightarrow> w1 = w2))"

text \<open>
  Once the key of row \<open>i\<close> is in \<^verbatim>\<open>already_compared\<close>, a worker \<open>w\<close> that is not inside the
  loop of row \<open>i\<close> stays outside it.
\<close>

definition kept_out :: "'k list \<Rightarrow> nat \<Rightarrow> nat \<Rightarrow> ('k matrix_build, row_position) pool \<Rightarrow> bool" where
  "kept_out seq_keys i w pool =
     (seq_keys ! i \<in> set (already_compared (fst pool)) \<and> row_of (snd pool ! w) \<noteq> Some i)"

text \<open>
  Invariant of the pool of \<^verbatim>\<open>make_guided_clusters_worker\<close> processes: there is one cluster
  per guide, every key in the cluster of guide \<open>g\<close> passed the length test against guide
  \<open>g\<close>, and a worker inside a candidate loop is at an existing guide.
\<close>

definition gate_kept ::
  "('k \<Rightarrow> nat) \<Rightarrow> 'g guide list \<Rightarrow> real \<Rightarrow> (('g, 'k) guided_build, position) pool \<Rightarrow> bool" where
  "gate_kept seq_len guide_sequences length_threshold pool =
     (length (guide_clusters (fst pool)) = length guide_sequences \<and>
      (\<forall>g<length guide_sequences. \<forall>key\<in>set (guide_clusters (fst pool) ! g).
         guide_gate_passes (guide_length (guide_sequences ! g)) (seq_len key) length_threshold) \<and>
      (\<forall>p\<in>set (snd pool). \<forall>g k. p = Comparing g k \<longrightarrow> g < length guide_sequences))"

section \<open>The scan: lemmas\<close>

lemma then_err_simps [simp]:
  "then_err (Inl e) f = Inl e"
  "then_err (Inr a) f = f a"
  by (simp_all add: then_err_def)

lemma scan_pairs_append:
  "scan_pairs m (ps @ qs) p =
     (if ps = [] then scan_pairs m qs p
      else then_err (scan_pairs m ps p) (\<lambda>p'. if fst p' = 0 then Inr p' else scan_pairs m qs p'))"
proof (induction ps arbitrary: p)
  case Nil
  show ?case by simp
next
  case (Cons a ps)
  obtain x y where a: "a = (x, y)" by (cases a)
  obtain md c1 c2 where p: "p = (md, c1, c2)" by (cases p)
  show ?case
  proof (cases "cell m x y")
    case (Inl e)
    then show ?thesis by (simp add: a p)
  next
    case (Inr d)
    show ?thesis
      using Cons.IH [of "if d < md then (d, x, y) else (md, c1, c2)"]
      by (cases ps) (simp_all add: a p Inr Let_def)
  qed
qed

lemma scan_inner_pairs:
  "x < y \<Longrightarrow> scan_inner m x y p = scan_pairs m (map (Pair x) [y..<length m]) p"
proof (induction m x y p rule: scan_inner.induct)
  case (1 m x y md c1 c2)
  show ?case
  proof (cases "y < length m")
    case False
    then show ?thesis by simp
  next
    case True
    have xy: "x \<noteq> y" "x < y + 1" using "1.prems" by simp_all
    show ?thesis
    proof (cases "cell m x y")
      case (Inl e)
      then show ?thesis using True xy by (simp add: upt_conv_Cons)
    next
      case (Inr d)
      show ?thesis
      proof (cases "fst (if d < md then (d, x, y) else (md, c1, c2)) = 0")
        case z: True
        then show ?thesis using True xy Inr by (simp add: upt_conv_Cons Let_def)
      next
        case nz: False
        have "scan_inner m x (y + 1) (if d < md then (d, x, y) else (md, c1, c2)) =
              scan_pairs m (map (Pair x) [y + 1..<length m]) (if d < md then (d, x, y) else (md, c1, c2))"
          using "1.IH"(1) [OF True xy(1) refl nz xy(2)] by simp
        then show ?thesis using True xy Inr nz by (simp add: upt_conv_Cons Let_def)
      qed
    qed
  qed
qed



lemma scan_outer_pairs:
  "scan_outer m x p =
     scan_pairs m (concat (map (\<lambda>x. map (Pair x) [x + 1..<length m]) [x..<length m])) p"
proof (induction m x p rule: scan_outer.induct)
  case (1 m x p)
  show ?case
  proof (cases "x < length m")
    case False
    then show ?thesis by simp
  next
    case True
    let ?row = "map (Pair x) [x + 1..<length m]"
    let ?rest = "concat (map (\<lambda>x. map (Pair x) [x + 1..<length m]) [x + 1..<length m])"
    have inner: "scan_inner m x (x + 1) p = scan_pairs m ?row p"
      by (rule scan_inner_pairs) simp
    have split: "concat (map (\<lambda>x. map (Pair x) [x + 1..<length m]) [x..<length m]) = ?row @ ?rest"
      using True by (simp add: upt_conv_Cons)
    show ?thesis
    proof (cases "?row = []")
      case e: True
      then have emp: "[x + 1..<length m] = []" by simp
      then have last: "\<not> x + 1 < length m" by auto
      have "scan_inner m x (x + 1) p = Inr p"
        unfolding inner emp by simp
      moreover have "scan_outer m (x + 1) p = Inr p"
        using last by (subst scan_outer.simps) simp
      ultimately have "scan_outer m x p = Inr p"
        using True by (subst scan_outer.simps) (simp del: scan_outer.simps)
      moreover have "scan_pairs m (?row @ ?rest) p = Inr p"
        unfolding emp by simp
      ultimately show ?thesis
        unfolding split by simp
    next
      case ne: False
      show ?thesis
      proof (cases "scan_pairs m ?row p")
        case (Inl e)
        then show ?thesis
          using True ne inner
          by (subst scan_outer.simps, subst split, subst scan_pairs_append) (simp del: scan_outer.simps)
      next
        case (Inr p')
        then show ?thesis
          using True ne inner "1.IH" [OF True, of p']
          by (subst scan_outer.simps, subst split, subst scan_pairs_append) (simp del: scan_outer.simps)
      qed
    qed
  qed
qed

lemma find_closest_pairs:
  "find_closest m = scan_pairs m (row_major_pairs (length m)) (99, 0, 0)"
  by (simp add: find_closest_def row_major_pairs_def scan_outer_pairs del: scan_outer.simps)

lemma scan_pairs_result:
  "scan_pairs m ps (md, c1, c2) = Inr (md', c1', c2') \<Longrightarrow>
     (md' = md \<and> c1' = c1 \<and> c2' = c2) \<or>
     (md' < md \<and> (c1', c2') \<in> set ps \<and> cell m c1' c2' = Inr md')"
proof (induction ps arbitrary: md c1 c2)
  case Nil
  then show ?case by simp
next
  case (Cons a ps)
  obtain x y where a: "a = (x, y)" by (cases a)
  from Cons.prems obtain d where d: "cell m x y = Inr d"
    by (cases "cell m x y") (simp_all add: a)
  show ?case
  proof (cases "d < md")
    case True
    show ?thesis
    proof (cases "d = 0")
      case True
      with \<open>d < md\<close> Cons.prems d show ?thesis by (simp add: a)
    next
      case False
      with \<open>d < md\<close> Cons.prems d have "scan_pairs m ps (d, x, y) = Inr (md', c1', c2')"
        by (simp add: a)
      from Cons.IH [OF this] \<open>d < md\<close> d show ?thesis by (auto simp: a)
    qed
  next
    case False
    show ?thesis
    proof (cases "md = 0")
      case True
      with False Cons.prems d show ?thesis by (simp add: a)
    next
      case nz: False
      with False Cons.prems d have "scan_pairs m ps (md, c1, c2) = Inr (md', c1', c2')"
        by (simp add: a)
      from Cons.IH [OF this] show ?thesis by (auto simp: a)
    qed
  qed
qed

lemma scan_pairs_first_min:
  assumes "\<forall>(x, y)\<in>set ps. x < length m \<and> y < length (m ! x) \<and> 0 \<le> m ! x ! y"
    and "0 \<le> md"
  shows "\<exists>p'. scan_pairs m ps (md, c1, c2) = Inr p' \<and>
     (if \<forall>(x, y)\<in>set ps. md \<le> m ! x ! y then p' = (md, c1, c2)
      else \<exists>as x y bs. ps = as @ (x, y) # bs \<and> p' = (m ! x ! y, x, y) \<and> m ! x ! y < md \<and>
             (\<forall>(a, b)\<in>set as. m ! x ! y < m ! a ! b) \<and>
             (\<forall>(a, b)\<in>set ps. m ! x ! y \<le> m ! a ! b))"
  using assms
proof (induction ps arbitrary: md c1 c2)
  case Nil
  then show ?case by simp
next
  case (Cons q ps)
  obtain x y where q: "q = (x, y)" by (cases q)
  let ?d = "m ! x ! y"
  from Cons.prems(1) have rng: "x < length m" "y < length (m ! x)" "0 \<le> ?d"
    and rest: "\<forall>(x, y)\<in>set ps. x < length m \<and> y < length (m ! x) \<and> 0 \<le> m ! x ! y"
    by (auto simp: q)
  have d: "cell m x y = Inr ?d" using rng by (simp add: cell_def)
  show ?case
  proof (cases "?d < md")
    case lt: True
    show ?thesis
    proof (cases "?d = 0")
      case True
      have res: "scan_pairs m (q # ps) (md, c1, c2) = Inr (?d, x, y)"
        using lt True d by (simp add: q)
      have neg: "\<not> (\<forall>(a, b)\<in>set (q # ps). md \<le> m ! a ! b)"
        using lt by (auto simp: q)
      have all: "\<forall>(a, b)\<in>set (q # ps). ?d \<le> m ! a ! b"
        using True rest rng by (auto simp: q)
      have "\<exists>as x' y' bs. q # ps = as @ (x', y') # bs \<and> (?d, x, y) = (m ! x' ! y', x', y') \<and>
              m ! x' ! y' < md \<and> (\<forall>(a, b)\<in>set as. m ! x' ! y' < m ! a ! b) \<and>
              (\<forall>(a, b)\<in>set (q # ps). m ! x' ! y' \<le> m ! a ! b)"
        apply (rule exI [of _ "[]"], rule exI [of _ x], rule exI [of _ y], rule exI [of _ ps])
        using lt all by (simp add: q)
      then show ?thesis unfolding res using neg by (simp only: if_False sum.inject) blast
    next
      case False
      have step: "scan_pairs m (q # ps) (md, c1, c2) = scan_pairs m ps (?d, x, y)"
        using lt False d by (simp add: q)
      from Cons.IH [OF rest rng(3), of x y] obtain p' where
        p': "scan_pairs m ps (?d, x, y) = Inr p'" and
        alt: "if \<forall>(a, b)\<in>set ps. ?d \<le> m ! a ! b then p' = (?d, x, y)
              else \<exists>as x' y' bs. ps = as @ (x', y') # bs \<and> p' = (m ! x' ! y', x', y') \<and>
                     m ! x' ! y' < ?d \<and>
                     (\<forall>(a, b)\<in>set as. m ! x' ! y' < m ! a ! b) \<and>
                     (\<forall>(a, b)\<in>set ps. m ! x' ! y' \<le> m ! a ! b)"
        by blast
      show ?thesis
      proof (cases "\<forall>(a, b)\<in>set ps. ?d \<le> m ! a ! b")
        case True
        with alt have p'eq: "p' = (?d, x, y)" by simp
        have neg: "\<not> (\<forall>(a, b)\<in>set (q # ps). md \<le> m ! a ! b)"
          using lt by (auto simp: q)
        have all: "\<forall>(a, b)\<in>set (q # ps). ?d \<le> m ! a ! b"
          using True by (auto simp: q)
        have "\<exists>as x' y' bs. q # ps = as @ (x', y') # bs \<and> (?d, x, y) = (m ! x' ! y', x', y') \<and>
                m ! x' ! y' < md \<and> (\<forall>(a, b)\<in>set as. m ! x' ! y' < m ! a ! b) \<and>
                (\<forall>(a, b)\<in>set (q # ps). m ! x' ! y' \<le> m ! a ! b)"
          apply (rule exI [of _ "[]"], rule exI [of _ x], rule exI [of _ y], rule exI [of _ ps])
          using lt all by (simp add: q)
        then show ?thesis unfolding step p' p'eq using neg by (simp only: if_False sum.inject) blast
      next
        case False
        with alt obtain as x' y' bs where
          ps: "ps = as @ (x', y') # bs" and p'eq: "p' = (m ! x' ! y', x', y')" and
          less: "m ! x' ! y' < ?d" and
          before: "\<forall>(a, b)\<in>set as. m ! x' ! y' < m ! a ! b" and
          all: "\<forall>(a, b)\<in>set ps. m ! x' ! y' \<le> m ! a ! b"
          by auto
        have "q # ps = (q # as) @ (x', y') # bs" by (simp add: ps)
        moreover have "\<forall>(a, b)\<in>set (q # as). m ! x' ! y' < m ! a ! b"
          using before less by (auto simp: q)
        moreover have "\<forall>(a, b)\<in>set (q # ps). m ! x' ! y' \<le> m ! a ! b"
          using all less by (auto simp: q)
        moreover have "m ! x' ! y' < md" using less lt by simp
        moreover have "\<not> (\<forall>(a, b)\<in>set (q # ps). md \<le> m ! a ! b)"
          using lt by (auto simp: q)
        ultimately show ?thesis using step p' p'eq by (simp only: if_False) blast
      qed
    qed
  next
    case ge: False
    show ?thesis
    proof (cases "md = 0")
      case True
      have "scan_pairs m (q # ps) (md, c1, c2) = Inr (md, c1, c2)"
        using ge True d by (simp add: q)
      moreover have "\<forall>(a, b)\<in>set (q # ps). md \<le> m ! a ! b"
        using True rest rng by (auto simp: q)
      ultimately show ?thesis by simp
    next
      case False
      have step: "scan_pairs m (q # ps) (md, c1, c2) = scan_pairs m ps (md, c1, c2)"
        using ge False d by (simp add: q)
      from Cons.IH [OF rest Cons.prems(2), of c1 c2] obtain p' where
        p': "scan_pairs m ps (md, c1, c2) = Inr p'" and
        alt: "if \<forall>(a, b)\<in>set ps. md \<le> m ! a ! b then p' = (md, c1, c2)
              else \<exists>as x' y' bs. ps = as @ (x', y') # bs \<and> p' = (m ! x' ! y', x', y') \<and>
                     m ! x' ! y' < md \<and>
                     (\<forall>(a, b)\<in>set as. m ! x' ! y' < m ! a ! b) \<and>
                     (\<forall>(a, b)\<in>set ps. m ! x' ! y' \<le> m ! a ! b)"
        by blast
      show ?thesis
      proof (cases "\<forall>(a, b)\<in>set ps. md \<le> m ! a ! b")
        case True
        with alt have "p' = (md, c1, c2)" by simp
        moreover have "\<forall>(a, b)\<in>set (q # ps). md \<le> m ! a ! b"
          using True ge by (auto simp: q)
        ultimately show ?thesis using step p' by simp
      next
        case nall: False
        with alt obtain as x' y' bs where
          ps: "ps = as @ (x', y') # bs" and p'eq: "p' = (m ! x' ! y', x', y')" and
          less: "m ! x' ! y' < md" and
          before: "\<forall>(a, b)\<in>set as. m ! x' ! y' < m ! a ! b" and
          all: "\<forall>(a, b)\<in>set ps. m ! x' ! y' \<le> m ! a ! b"
          by auto
        have "q # ps = (q # as) @ (x', y') # bs" by (simp add: ps)
        moreover have "\<forall>(a, b)\<in>set (q # as). m ! x' ! y' < m ! a ! b"
          using before less ge by (auto simp: q)
        moreover have "\<forall>(a, b)\<in>set (q # ps). m ! x' ! y' \<le> m ! a ! b"
          using all less ge by (auto simp: q)
        moreover have "\<not> (\<forall>(a, b)\<in>set (q # ps). md \<le> m ! a ! b)"
          using nall by (auto simp: q)
        ultimately show ?thesis using step p' p'eq less by (simp only: if_False) blast
      qed
    qed
  qed
qed

lemma scan_pairs_short_circuit:
  assumes "\<forall>(a, b)\<in>set as. a < length m \<and> b < length (m ! a) \<and> 0 < m ! a ! b"
    and "0 < md" and "x < length m" and "y < length (m ! x)" and "m ! x ! y = 0"
  shows "scan_pairs m (as @ (x, y) # bs) (md, c1, c2) = Inr (0, x, y)"
  using assms(1,2)
proof (induction as arbitrary: md c1 c2)
  case Nil
  then show ?case using assms(3-5) by (simp add: cell_def)
next
  case (Cons q as)
  obtain a b where q: "q = (a, b)" by (cases q)
  from Cons.prems(1) have rng: "a < length m" "b < length (m ! a)" "0 < m ! a ! b"
    and rest: "\<forall>(a, b)\<in>set as. a < length m \<and> b < length (m ! a) \<and> 0 < m ! a ! b"
    by (auto simp: q)
  show ?case
  proof (cases "m ! a ! b < md")
    case True
    then show ?thesis
      using rng Cons.IH [OF rest rng(3), of a b] by (simp add: q cell_def)
  next
    case False
    then show ?thesis
      using rng Cons.prems(2) Cons.IH [OF rest Cons.prems(2), of c1 c2] by (simp add: q cell_def)
  qed
qed

lemma set_row_major_pairs: "set (row_major_pairs n) = {(x, y). x < y \<and> y < n}"
  by (force simp: row_major_pairs_def)

lemma sorted_rows_from:
  "sorted_wrt lex_less (concat (map (\<lambda>x. map (Pair x) [x + 1..<n]) [k..<n]))"
proof (induction "n - k" arbitrary: k)
  case 0
  then show ?case by simp
next
  case (Suc d)
  then have k: "k < n" and d: "d = n - (k + 1)" by simp_all
  have row: "sorted_wrt lex_less (map (Pair k) [k + 1..<n])"
    by (simp add: sorted_wrt_map lex_less_def)
  have cross: "\<forall>p\<in>set (map (Pair k) [k + 1..<n]).
      \<forall>q\<in>set (concat (map (\<lambda>x. map (Pair x) [x + 1..<n]) [k + 1..<n])). lex_less p q"
    by (auto simp: lex_less_def)
  show ?case
    using k row cross Suc.hyps(1) [OF d]
    by (simp add: upt_conv_Cons sorted_wrt_append)
qed

lemma sorted_row_major_pairs: "sorted_wrt lex_less (row_major_pairs n)"
  unfolding row_major_pairs_def by (rule sorted_rows_from)

section \<open>The merge: lemmas\<close>

lemma extend_cluster_distinct:
  "c1 \<noteq> c2 \<Longrightarrow> c1 < length cl \<Longrightarrow>
   extend_cluster cl c1 c2 k = Some (Inr (cl[c1 := cl ! c1 @ drop k (cl ! c2)]))"
proof (induction "length (cl ! c2) - k" arbitrary: cl k)
  case 0
  then show ?case by (subst extend_cluster.simps) simp
next
  case (Suc d)
  then have k: "k < length (cl ! c2)" by simp
  let ?cl = "cl[c1 := cl ! c1 @ [cl ! c2 ! k]]"
  have c2: "?cl ! c2 = cl ! c2" using Suc.prems by simp
  have d: "d = length (?cl ! c2) - Suc k" using Suc.hyps(2) c2 by simp
  have len: "c1 < length ?cl" using Suc.prems by simp
  have "extend_cluster ?cl c1 c2 (Suc k) =
        Some (Inr (?cl[c1 := ?cl ! c1 @ drop (Suc k) (?cl ! c2)]))"
    by (rule Suc.hyps(1) [OF d Suc.prems(1) len])
  also have "?cl[c1 := ?cl ! c1 @ drop (Suc k) (?cl ! c2)] = cl[c1 := cl ! c1 @ drop k (cl ! c2)]"
    using Suc.prems k c2 by (simp add: Cons_nth_drop_Suc)
  finally show ?case
    using k Suc.prems by (subst extend_cluster.simps) simp
qed

lemma extend_cluster_self:
  assumes "extend_cluster cl c1 c2 k = Some r"
  shows "\<not> (c1 = c2 \<and> c1 < length cl \<and> k < length (cl ! c1))"
proof (rule extend_cluster.raw_induct
    [where P = "\<lambda>cl c1 c2 k r. \<not> (c1 = c2 \<and> c1 < length cl \<and> k < length (cl ! c1))", OF _ assms])
  fix f :: "'a list list \<Rightarrow> nat \<Rightarrow> nat \<Rightarrow> nat \<Rightarrow> (error + 'a list list) option"
  fix cl c1 c2 k r
  assume IH: "\<And>cl c1 c2 k r. f cl c1 c2 k = Some r \<Longrightarrow>
                \<not> (c1 = c2 \<and> c1 < length cl \<and> k < length (cl ! c1))"
    and hyp: "(if k < length (cl ! c2) then
                 (if c1 < length cl
                  then f (cl[c1 := cl ! c1 @ [cl ! c2 ! k]]) c1 c2 (Suc k)
                  else Some (Inl IndexError))
               else Some (Inr cl)) = Some r"
  show "\<not> (c1 = c2 \<and> c1 < length cl \<and> k < length (cl ! c1))"
  proof
    assume a: "c1 = c2 \<and> c1 < length cl \<and> k < length (cl ! c1)"
    then have e: "c1 = c2" and l: "c1 < length cl" and kk: "k < length (cl ! c2)" by auto
    have "f (cl[c1 := cl ! c1 @ [cl ! c2 ! k]]) c1 c2 (Suc k) = Some r"
      using hyp l kk by simp
    from IH [OF this] e l kk show False by simp
  qed
qed

lemma extend_cluster_hangs:
  "c < length cl \<Longrightarrow> k < length (cl ! c) \<Longrightarrow> extend_cluster cl c c k = None"
  using extend_cluster_self [of cl c c k] by (cases "extend_cluster cl c c k") auto

lemma extend_cluster_length:
  assumes "extend_cluster cl c1 c2 k = Some r"
  shows "\<forall>merged. r = Inr merged \<longrightarrow> length merged = length cl"
proof (rule extend_cluster.raw_induct
    [where P = "\<lambda>cl c1 c2 k r. \<forall>merged. r = Inr merged \<longrightarrow> length merged = length cl", OF _ assms])
  fix f :: "'a list list \<Rightarrow> nat \<Rightarrow> nat \<Rightarrow> nat \<Rightarrow> (error + 'a list list) option"
  fix cl c1 c2 k r
  assume IH: "\<And>cl c1 c2 k r. f cl c1 c2 k = Some r \<Longrightarrow>
                \<forall>merged. r = Inr merged \<longrightarrow> length merged = length cl"
    and hyp: "(if k < length (cl ! c2) then
                 (if c1 < length cl
                  then f (cl[c1 := cl ! c1 @ [cl ! c2 ! k]]) c1 c2 (Suc k)
                  else Some (Inl IndexError))
               else Some (Inr cl)) = Some r"
  show "\<forall>merged. r = Inr merged \<longrightarrow> length merged = length cl"
  proof (cases "k < length (cl ! c2) \<and> c1 < length cl")
    case True
    with hyp have "f (cl[c1 := cl ! c1 @ [cl ! c2 ! k]]) c1 c2 (Suc k) = Some r" by simp
    from IH [OF this] show ?thesis by simp
  next
    case False
    with hyp show ?thesis by (auto split: if_splits)
  qed
qed

lemma set_cell_length: "set_cell m r c v = Inr m' \<Longrightarrow> length m' = length m"
  by (auto simp: set_cell_def split: if_splits)

lemma update_cell_length: "update_cell c1 c2 i m = Inr m' \<Longrightarrow> length m' = length m"
  by (auto simp: update_cell_def then_err_def set_cell_def cell_def split: sum.splits if_splits)

lemma update_loop_length: "update_loop c1 c2 is m = Inr m' \<Longrightarrow> length m' = length m"
proof (induction "is" arbitrary: m)
  case Nil
  then show ?case by simp
next
  case (Cons i "is")
  from Cons.prems obtain m1 where m1: "update_cell c1 c2 i m = Inr m1"
    and rest: "update_loop c1 c2 is m1 = Inr m'"
    by (cases "update_cell c1 c2 i m") simp_all
  from Cons.IH [OF rest] update_cell_length [OF m1] show ?case by simp
qed

lemma delete_column_length: "delete_column c rows = Inr rows' \<Longrightarrow> length rows' = length rows"
proof (induction rows arbitrary: rows')
  case Nil
  then show ?case by simp
next
  case (Cons row rows)
  from Cons.prems obtain r where r: "delete_column c rows = Inr r" and "rows' = del_at c row # r"
    by (cases "delete_column c rows") (auto split: if_splits)
  with Cons.IH [OF r] show ?case by simp
qed

lemma length_del_at: "i < length xs \<Longrightarrow> length (del_at i xs) = length xs - 1"
  by (simp add: del_at_def)

lemma update_distance_matrix_length:
  assumes "update_distance_matrix m c1 c2 = Inr m'"
  shows "c2 < length m \<and> Suc (length m') = length m"
proof -
  from assms have c1: "c1 < length m"
    by (simp add: update_distance_matrix_def split: if_splits)
  with assms obtain m1 where m1: "update_loop c1 c2 [0..<length (m ! c1)] m = Inr m1"
    and fin: "(if c2 < length m1 then delete_column c2 (del_at c2 m1) else Inl IndexError) = Inr m'"
    by (cases "update_loop c1 c2 [0..<length (m ! c1)] m")
       (simp_all add: update_distance_matrix_def)
  have len: "length m1 = length m" by (rule update_loop_length [OF m1])
  from fin have c2: "c2 < length m1" and d: "delete_column c2 (del_at c2 m1) = Inr m'"
    by (simp_all split: if_splits)
  from delete_column_length [OF d] length_del_at [OF c2] len c2 show ?thesis by simp
qed

lemma update_loop_append:
  "update_loop c1 c2 (xs @ ys) m = then_err (update_loop c1 c2 xs m) (update_loop c1 c2 ys)"
proof (induction xs arbitrary: m)
  case Nil
  show ?case by simp
next
  case (Cons x xs)
  then show ?case by (cases "update_cell c1 c2 x m") simp_all
qed

lemma update_cell_square:
  assumes sq: "square n m" and c1: "c1 < n" and c2: "c2 < n" and i: "i < n"
  shows "\<exists>m'. update_cell c1 c2 i m = Inr m' \<and> square n m' \<and>
           (\<forall>r<n. \<forall>c<n. m' ! r ! c =
              (if m ! c1 ! i > m ! c2 ! i \<and> ((r = c1 \<and> c = i) \<or> (r = i \<and> c = c1))
               then m ! c2 ! i else m ! r ! c))"
proof (cases "m ! c1 ! i > m ! c2 ! i")
  case False
  have "update_cell c1 c2 i m = Inr m"
    using sq c1 c2 i False by (simp add: update_cell_def cell_def square_def)
  then show ?thesis using sq False by simp
next
  case True
  let ?b = "m ! c2 ! i"
  let ?m1 = "m[c1 := (m ! c1)[i := ?b]]"
  let ?m2 = "?m1[i := (?m1 ! i)[c1 := ?b]]"
  have len: "length m = n" and rows: "\<And>r. r < n \<Longrightarrow> length (m ! r) = n"
    using sq by (simp_all add: square_def)
  have s1: "set_cell m c1 i ?b = Inr ?m1"
    using len rows c1 i by (simp add: set_cell_def)
  have sq1: "square n ?m1"
    using len rows c1 by (auto simp: square_def nth_list_update)
  have v': "?m1 ! c2 ! i = ?b"
    using len rows c1 c2 i by (simp add: nth_list_update)
  have s2: "set_cell ?m1 i c1 ?b = Inr ?m2"
    using sq1 c1 i by (simp add: set_cell_def square_def)
  have res: "update_cell c1 c2 i m = Inr ?m2"
    using True len rows c1 c2 i s1 s2 v' sq1
    by (simp add: update_cell_def cell_def square_def)
  have sq2: "square n ?m2"
    using sq1 i by (auto simp: square_def nth_list_update)
  have pt: "\<forall>r<n. \<forall>c<n. ?m2 ! r ! c =
      (if (r = c1 \<and> c = i) \<or> (r = i \<and> c = c1) then ?b else m ! r ! c)"
    using len rows c1 c2 i by (auto simp: nth_list_update)
  show ?thesis using res sq2 pt True by simp
qed

lemma linked_Suc:
  "(if m ! c1 ! j > m ! c2 ! j \<and> ((r = c1 \<and> c = j) \<or> (r = j \<and> c = c1))
    then m ! c2 ! j else linked m c1 c2 j r c) = linked m c1 c2 (Suc j) r c"
proof (cases "m ! c1 ! j > m ! c2 ! j")
  case True
  then show ?thesis
    by (cases "r = c1"; cases "c = j"; cases "r = j"; cases "c = c1")
       (simp_all add: linked_def less_Suc_eq)
next
  case False
  then show ?thesis
    by (cases "r = c1"; cases "c = j"; cases "r = j"; cases "c = c1")
       (simp_all add: linked_def less_Suc_eq)
qed

lemma update_loop_square:
  assumes sq: "square n m" and c12: "c1 < c2" and c2: "c2 < n"
  shows "j \<le> n \<Longrightarrow> \<exists>m'. update_loop c1 c2 [0..<j] m = Inr m' \<and> square n m' \<and>
           (\<forall>r<n. \<forall>c<n. m' ! r ! c = linked m c1 c2 j r c)"
proof (induction j)
  case 0
  show ?case using sq by (simp add: linked_def)
next
  case (Suc j)
  then have j: "j < n" by simp
  from Suc obtain mj where mj: "update_loop c1 c2 [0..<j] m = Inr mj" and sqj: "square n mj"
    and ptj: "\<forall>r<n. \<forall>c<n. mj ! r ! c = linked m c1 c2 j r c"
    by auto
  have c1: "c1 < n" using c12 c2 by simp
  have a: "mj ! c1 ! j = m ! c1 ! j" using ptj c1 j by (simp add: linked_def)
  have b: "mj ! c2 ! j = m ! c2 ! j" using ptj c2 j c12 by (auto simp: linked_def)
  from update_cell_square [OF sqj c1 c2 j] obtain m' where
    m': "update_cell c1 c2 j mj = Inr m'" and sq': "square n m'" and
    pt': "\<forall>r<n. \<forall>c<n. m' ! r ! c =
              (if mj ! c1 ! j > mj ! c2 ! j \<and> ((r = c1 \<and> c = j) \<or> (r = j \<and> c = c1))
               then mj ! c2 ! j else mj ! r ! c)"
    by blast
  have run: "update_loop c1 c2 [0..<Suc j] m = Inr m'"
    using mj m' by (simp add: update_loop_append)
  have "\<forall>r<n. \<forall>c<n. m' ! r ! c = linked m c1 c2 (Suc j) r c"
  proof (intro allI impI)
    fix r c assume r: "r < n" and c: "c < n"
    have old: "mj ! r ! c = linked m c1 c2 j r c" using ptj r c by blast
    have "m' ! r ! c =
            (if mj ! c1 ! j > mj ! c2 ! j \<and> ((r = c1 \<and> c = j) \<or> (r = j \<and> c = c1))
             then mj ! c2 ! j else mj ! r ! c)"
      using pt' r c by blast
    also have "\<dots> =
            (if m ! c1 ! j > m ! c2 ! j \<and> ((r = c1 \<and> c = j) \<or> (r = j \<and> c = c1))
             then m ! c2 ! j else linked m c1 c2 j r c)"
      unfolding a b old ..
    also have "\<dots> = linked m c1 c2 (Suc j) r c"
      by (rule linked_Suc)
    finally show "m' ! r ! c = linked m c1 c2 (Suc j) r c" .
  qed
  with run sq' show ?case by blast
qed

lemma nth_del_at: "k < length xs - 1 \<Longrightarrow> del_at c xs ! k = xs ! shifted c k"
  by (auto simp: del_at_def shifted_def nth_append min_def)

lemma delete_column_map:
  "\<forall>row\<in>set rows. c < length row \<Longrightarrow> delete_column c rows = Inr (map (del_at c) rows)"
  by (induction rows) simp_all

lemma shifted_less: "k < n - 1 \<Longrightarrow> c < n \<Longrightarrow> shifted c k < n"
  by (auto simp: shifted_def)

lemma update_distance_matrix_square:
  assumes sq: "square n m" and c12: "c1 < c2" and c2: "c2 < n"
  shows "\<exists>m'. update_distance_matrix m c1 c2 = Inr m' \<and> square (n - 1) m' \<and>
           (\<forall>r<n - 1. \<forall>c<n - 1. m' ! r ! c = linked m c1 c2 n (shifted c2 r) (shifted c2 c))"
proof -
  have len: "length m = n" and rows: "\<And>r. r < n \<Longrightarrow> length (m ! r) = n"
    using sq by (simp_all add: square_def)
  have c1: "c1 < n" using c12 c2 by simp
  from update_loop_square [OF sq c12 c2, of n] obtain m1 where
    m1: "update_loop c1 c2 [0..<n] m = Inr m1" and sq1: "square n m1" and
    pt1: "\<forall>r<n. \<forall>c<n. m1 ! r ! c = linked m c1 c2 n r c"
    by auto
  have len1: "length m1 = n" and rows1: "\<And>r. r < n \<Longrightarrow> length (m1 ! r) = n"
    using sq1 by (simp_all add: square_def)
  let ?d = "del_at c2 m1"
  have lend: "length ?d = n - 1" using len1 c2 by (simp add: length_del_at)
  have nthd: "\<And>r. r < n - 1 \<Longrightarrow> ?d ! r = m1 ! shifted c2 r"
    using len1 by (simp add: nth_del_at)
  have rowsd: "\<forall>row\<in>set ?d. c2 < length row"
  proof
    fix row assume "row \<in> set ?d"
    then obtain r where r: "r < n - 1" and "row = ?d ! r"
      using lend by (auto simp: in_set_conv_nth)
    then have "row = m1 ! shifted c2 r" using nthd by simp
    then show "c2 < length row" using rows1 [OF shifted_less [OF r c2]] c2 by simp
  qed
  let ?m' = "map (del_at c2) ?d"
  have res: "update_distance_matrix m c1 c2 = Inr ?m'"
    using m1 c1 c2 len len1 rows delete_column_map [OF rowsd]
    by (simp add: update_distance_matrix_def)
  have sq': "square (n - 1) ?m'"
    unfolding square_def
  proof (intro conjI allI impI)
    show "length ?m' = n - 1" using lend by simp
  next
    fix r assume r: "r < n - 1"
    then have "?m' ! r = del_at c2 (m1 ! shifted c2 r)" using lend nthd by simp
    then show "length (?m' ! r) = n - 1"
      using rows1 [OF shifted_less [OF r c2]] c2 by (simp add: length_del_at)
  qed
  have pt': "\<forall>r<n - 1. \<forall>c<n - 1. ?m' ! r ! c = linked m c1 c2 n (shifted c2 r) (shifted c2 c)"
  proof (intro allI impI)
    fix r c assume r: "r < n - 1" and c: "c < n - 1"
    have row: "?m' ! r = del_at c2 (m1 ! shifted c2 r)" using r lend nthd by simp
    have "length (m1 ! shifted c2 r) = n" using rows1 [OF shifted_less [OF r c2]] .
    then have "?m' ! r ! c = m1 ! shifted c2 r ! shifted c2 c"
      using row c by (simp add: nth_del_at)
    then show "?m' ! r ! c = linked m c1 c2 n (shifted c2 r) (shifted c2 c)"
      using pt1 shifted_less [OF r c2] shifted_less [OF c c2] by simp
  qed
  from res sq' pt' show ?thesis by blast
qed

lemma row_major_pairs_small: "n \<le> 1 \<Longrightarrow> row_major_pairs n = []"
  by (cases n) (simp_all add: row_major_pairs_def)

lemma find_closest_small: "length m \<le> 1 \<Longrightarrow> find_closest m = Inr (99, 0, 0)"
  by (simp add: find_closest_pairs row_major_pairs_small)

lemma find_closest_result:
  assumes "find_closest m = Inr (md, c1, c2)"
  shows "(md = 99 \<and> c1 = 0 \<and> c2 = 0) \<or>
         (md < 99 \<and> c1 < c2 \<and> c2 < length m \<and> cell m c1 c2 = Inr md)"
  using scan_pairs_result [OF assms [unfolded find_closest_pairs]]
  by (auto simp: set_row_major_pairs)

lemma merge_pass_return:
  "find_closest m = Inr (md, c1, c2) \<Longrightarrow> threshold < md \<Longrightarrow>
   merge_pass clusters m threshold = Some (Inr (Return clusters))"
  by (simp add: merge_pass_def)

lemma merge_pass_merges:
  assumes "find_closest m = Inr (md, c1, c2)" and "\<not> threshold < md"
    and "c1 \<noteq> c2" and "c2 < length clusters"
  shows "merge_pass clusters m threshold =
     (case update_distance_matrix m c1 c2 of
        Inl e \<Rightarrow> Some (Inl e)
      | Inr m' \<Rightarrow> Some (Inr (Recurse (del_at c2 (clusters[c1 := clusters ! c1 @ clusters ! c2])) m')))"
proof -
  from find_closest_result [OF assms(1)] assms(3) have "c1 < c2" by auto
  with assms(4) have c1: "c1 < length clusters" by simp
  show ?thesis
    using assms extend_cluster_distinct [OF assms(3) c1, of 0]
    by (simp add: merge_pass_def)
qed

lemma merge_pass_recurse:
  assumes "merge_pass clusters m threshold = Some (Inr (Recurse cs m'))"
  shows "Suc (length cs) = length clusters \<and> Suc (length m') = length m"
proof -
  from assms obtain md c1 c2 where f: "find_closest m = Inr (md, c1, c2)"
    by (cases "find_closest m") (auto simp: merge_pass_def)
  from assms f have c2: "c2 < length clusters"
    by (simp add: merge_pass_def split: if_splits)
  from assms f c2 obtain merged where e: "extend_cluster clusters c1 c2 0 = Some (Inr merged)"
    and u: "update_distance_matrix m c1 c2 = Inr m'" and cs: "cs = del_at c2 merged"
    by (auto simp: merge_pass_def split: if_splits option.splits sum.splits)
  from extend_cluster_length [OF e] have "length merged = length clusters" by simp
  with cs c2 update_distance_matrix_length [OF u] show ?thesis
    by (simp add: length_del_at)
qed

lemma merge_pass_total:
  assumes "threshold < 99"
  shows "\<exists>r. merge_pass clusters m threshold = Some r"
proof (cases "find_closest m")
  case (Inl e)
  then show ?thesis by (simp add: merge_pass_def)
next
  case (Inr p)
  obtain md c1 c2 where p: "p = (md, c1, c2)" by (cases p)
  note f = Inr [unfolded p]
  show ?thesis
  proof (cases "threshold < md")
    case True
    then show ?thesis using merge_pass_return [OF f True, of clusters] by simp
  next
    case False
    with assms have "md < 99" by simp
    with find_closest_result [OF f] have c12: "c1 \<noteq> c2" by auto
    show ?thesis
    proof (cases "c2 < length clusters")
      case oob: False
      then show ?thesis using f False by (simp add: merge_pass_def)
    next
      case True
      note mp = merge_pass_merges [OF f False c12 True]
      show ?thesis
        using mp by (cases "update_distance_matrix m c1 c2") simp_all
    qed
  qed
qed

lemma merge_closest_clusters_total:
  "threshold < 99 \<Longrightarrow> \<exists>r. merge_closest_clusters depth clusters m threshold = Some r"
proof (induction depth arbitrary: clusters m)
  case 0
  show ?case by simp
next
  case (Suc depth)
  from merge_pass_total [OF Suc.prems] obtain r where r: "merge_pass clusters m threshold = Some r"
    by blast
  show ?case
  proof (cases r)
    case (Inl e)
    with r show ?thesis by simp
  next
    case (Inr out)
    show ?thesis
    proof (cases out)
      case (Return cs)
      with r Inr show ?thesis by simp
    next
      case (Recurse cs m')
      with r Inr Suc.IH [OF Suc.prems, of cs m'] show ?thesis by simp
    qed
  qed
qed

lemma merge_closest_clusters_hangs:
  assumes "99 \<le> threshold" and "find_closest m = Inr (99, 0, 0)"
    and "clusters \<noteq> []" and "clusters ! 0 \<noteq> []"
  shows "merge_closest_clusters (Suc depth) clusters m threshold = None"
proof -
  have "extend_cluster clusters 0 0 0 = None"
    using assms(3,4) by (intro extend_cluster_hangs) simp_all
  then have "merge_pass clusters m threshold = None"
    using assms by (simp add: merge_pass_def)
  then show ?thesis by simp
qed

lemma scan_pairs_in_range:
  "\<forall>(x, y)\<in>set ps. x < length m \<and> y < length (m ! x) \<Longrightarrow> \<exists>p'. scan_pairs m ps p = Inr p'"
proof (induction ps arbitrary: p)
  case Nil
  show ?case by (rule exI [of _ p]) simp
next
  case (Cons q ps)
  obtain x y where q: "q = (x, y)" by (cases q)
  obtain md c1 c2 where p: "p = (md, c1, c2)" by (cases p)
  from Cons.prems have rng: "x < length m" "y < length (m ! x)"
    and rest: "\<forall>(x, y)\<in>set ps. x < length m \<and> y < length (m ! x)"
    by (auto simp: q)
  show ?case
    using rng Cons.IH [OF rest] by (simp add: q p cell_def Let_def)
qed

lemma find_closest_square:
  assumes "square n m"
  shows "\<exists>md c1 c2. find_closest m = Inr (md, c1, c2)"
proof -
  have "\<forall>(x, y)\<in>set (row_major_pairs (length m)). x < length m \<and> y < length (m ! x)"
    using assms by (auto simp: set_row_major_pairs square_def)
  from scan_pairs_in_range [OF this, of "(99, 0, 0)"] show ?thesis
    by (auto simp: find_closest_pairs)
qed



lemma lex_less_total: "p \<noteq> q \<Longrightarrow> \<not> lex_less p q \<Longrightarrow> lex_less q p"
  by (cases p; cases q) (auto simp: lex_less_def)

lemma row_major_pairs_split:
  assumes "x < y" and "y < n"
  shows "\<exists>as bs. row_major_pairs n = as @ (x, y) # bs \<and> (\<forall>q\<in>set as. lex_less q (x, y)) \<and>
           (\<forall>q\<in>set bs. lex_less (x, y) q)"
proof -
  have "(x, y) \<in> set (row_major_pairs n)" using assms by (simp add: set_row_major_pairs)
  then obtain as bs where s: "row_major_pairs n = as @ (x, y) # bs"
    by (auto simp: in_set_conv_decomp)
  from sorted_row_major_pairs [of n] show ?thesis
    unfolding s by (auto simp: sorted_wrt_append)
qed

lemma merge_closest_clusters_returns:
  "threshold < 99 \<Longrightarrow> square (length clusters) m \<Longrightarrow> length clusters < depth \<Longrightarrow>
   \<exists>cs. merge_closest_clusters depth clusters m threshold = Some (Inr cs) \<and>
        length cs \<le> length clusters"
proof (induction depth arbitrary: clusters m)
  case 0
  then show ?case by simp
next
  case (Suc depth)
  from find_closest_square [OF Suc.prems(2)] obtain md x y where
    f: "find_closest m = Inr (md, x, y)" by blast
  have len: "length m = length clusters" using Suc.prems(2) by (simp add: square_def)
  show ?case
  proof (cases "threshold < md")
    case True
    from merge_pass_return [OF f True, of clusters] show ?thesis by simp
  next
    case False
    with Suc.prems(1) have "md < 99" by simp
    with find_closest_result [OF f] len have xy: "x < y" and y: "y < length clusters" by auto
    then have ne: "x \<noteq> y" by simp
    from update_distance_matrix_square [OF Suc.prems(2) xy y] obtain m' where
      u: "update_distance_matrix m x y = Inr m'" and sq: "square (length clusters - 1) m'"
      by blast
    let ?cs = "del_at y (clusters[x := clusters ! x @ clusters ! y])"
    have lcs: "length ?cs = length clusters - 1" using y by (simp add: length_del_at)
    have mp: "merge_pass clusters m threshold = Some (Inr (Recurse ?cs m'))"
      using merge_pass_merges [OF f False ne y] u by simp
    have smaller: "length ?cs < depth" using lcs y Suc.prems(3) by simp
    have sq': "square (length ?cs) m'" using sq lcs by simp
    from Suc.IH [OF Suc.prems(1) sq' smaller] obtain cs where
      "merge_closest_clusters depth ?cs m' threshold = Some (Inr cs)" and "length cs \<le> length ?cs"
      by blast
    then show ?thesis
      using mp lcs by simp
  qed
qed

section \<open>The distance-matrix builder: lemmas\<close>

text \<open>
  The length tests round as the interpreter does: \<^verbatim>\<open>float("0.1")\<close> is
  \<open>3602879701896397 / 2 ^ 55\<close> and \<^verbatim>\<open>100 * (1 + 0.1)\<close> is \<^verbatim>\<open>110.00000000000001\<close>, so a guide
  of length 110 passes the test against a key of length 100 at threshold 0.1;
  \<^verbatim>\<open>90 * (1 - 0.3)\<close> is \<^verbatim>\<open>62.99999999999999\<close> and \<^verbatim>\<open>100 * (1 - 0.7)\<close> is
  \<^verbatim>\<open>30.000000000000004\<close>.
\<close>

lemma length_tests_round:
  "double (1 / 10) = 3602879701896397 / 36028797018963968 \<and>
   double (double 100 * double (1 + double (1 / 10))) = 7740561859543041 / 70368744177664 \<and>
   double (double 90 * double (1 - double (3 / 10))) = 8866461766385663 / 140737488355328 \<and>
   double (double 100 * double (1 - double (7 / 10))) = 8444249301319681 / 281474976710656 \<and>
   guide_gate_passes 110 100 (1 / 10) \<and> guide_gate_passes 63 90 (3 / 10) \<and>
   length_gate_fails 30 100 (7 / 10)"
  by code_simp

lemma run_pool_Nil [simp]: "run_pool work [] pool = pool"
  by (simp add: run_pool_def)

lemma run_pool_append:
  "run_pool work (xs @ ys) pool = run_pool work ys (run_pool work xs pool)"
  by (simp add: run_pool_def)

lemma run_pool_Cons:
  "run_pool work (w # ws) pool = run_pool work ws (pool_step work pool w)"
  by (simp add: run_pool_def)

lemma pool_step_length [simp]: "length (snd (pool_step work pool w)) = length (snd pool)"
  by (simp add: pool_step_def)

lemma run_pool_length [simp]: "length (snd (run_pool work sched pool)) = length (snd pool)"
  by (induction sched arbitrary: pool) (simp_all add: run_pool_Cons)

lemma run_pool_invariant:
  assumes "P pool"
    and "\<And>s ps w. P (s, ps) \<Longrightarrow> w < length ps \<Longrightarrow>
           P (fst (work s (ps ! w)), ps[w := snd (work s (ps ! w))])"
  shows "P (run_pool work sched pool)"
  using assms(1)
proof (induction sched arbitrary: pool)
  case Nil
  then show ?case by simp
next
  case (Cons w ws)
  obtain s ps where pool: "pool = (s, ps)" by (cases pool)
  have "P (pool_step work pool w)"
    using Cons.prems assms(2) [of s ps w] by (simp add: pool_step_def pool)
  from Cons.IH [OF this] show ?case by (simp add: run_pool_Cons)
qed

lemma compare_pair_already [simp]:
  "already_compared (fst (compare_pair seq_len blastn seq_keys lt i j s)) = already_compared s"
  by (simp add: compare_pair_def)

text \<open>A step of a worker only adds to \<^verbatim>\<open>already_compared\<close>.\<close>

lemma worker_keeps_claims:
  "key \<in> set (already_compared s) \<Longrightarrow>
   key \<in> set (already_compared (fst (distance_matrix_worker seq_len blastn seq_keys lt s p)))"
proof (cases p)
  case (Write i j ops row)
  assume "key \<in> set (already_compared s)"
  with Write show ?thesis by (cases ops) (simp_all add: distance_matrix_worker_def)
qed (simp_all add: distance_matrix_worker_def)

text \<open>A step of a worker takes it into the loop of row \<open>i\<close> only by claiming the row.\<close>

lemma worker_enters_row:
  assumes "row_of (snd (distance_matrix_worker seq_len blastn seq_keys lt s p)) = Some i"
    and "row_of p \<noteq> Some i"
  shows "p = Claim i \<and> i < length seq_keys \<and> seq_keys ! i \<notin> set (already_compared s) \<and>
     distance_matrix_worker seq_len blastn seq_keys lt s p =
       (s\<lparr>already_compared := already_compared s @ [seq_keys ! i]\<rparr>, Test i 0)"
proof (cases p)
  case (Claim i')
  with assms(1) show ?thesis
    by (simp add: distance_matrix_worker_def split: if_splits)
next
  case (Test i' j)
  with assms show ?thesis
    by (simp add: distance_matrix_worker_def split: if_splits)
next
  case (Write i' j ops row)
  with assms show ?thesis
    by (cases ops) (simp_all add: distance_matrix_worker_def)
next
  case Exit
  with assms(1) show ?thesis by (simp add: distance_matrix_worker_def)
qed

lemma rows_owned_step:
  assumes inv: "rows_owned seq_keys (s, ps)" and w: "w < length ps"
  shows "rows_owned seq_keys
           (fst (distance_matrix_worker seq_len blastn seq_keys lt s (ps ! w)),
            ps[w := snd (distance_matrix_worker seq_len blastn seq_keys lt s (ps ! w))])"
proof -
  let ?W = "distance_matrix_worker seq_len blastn seq_keys lt s (ps ! w)"
  from inv have i1: "\<And>v i. v < length ps \<Longrightarrow> row_of (ps ! v) = Some i \<Longrightarrow>
          i < length seq_keys \<and> seq_keys ! i \<in> set (already_compared s)"
    and i2: "\<And>w1 w2 i. w1 < length ps \<Longrightarrow> w2 < length ps \<Longrightarrow>
          row_of (ps ! w1) = Some i \<Longrightarrow> row_of (ps ! w2) = Some i \<Longrightarrow> w1 = w2"
    unfolding rows_owned_def by auto
  have moved: "i < length seq_keys \<and> seq_keys ! i \<in> set (already_compared (fst ?W)) \<and>
      (\<forall>v<length ps. v \<noteq> w \<longrightarrow> row_of (ps ! v) \<noteq> Some i)"
    if at: "row_of (snd ?W) = Some i" for i
  proof (cases "row_of (ps ! w) = Some i")
    case True
    from i1 [OF w True] have "i < length seq_keys"
      and "seq_keys ! i \<in> set (already_compared (fst ?W))"
      by (simp_all add: worker_keeps_claims)
    moreover have "\<forall>v<length ps. v \<noteq> w \<longrightarrow> row_of (ps ! v) \<noteq> Some i"
      using i2 [OF _ w _ True] by blast
    ultimately show ?thesis by simp
  next
    case False
    from worker_enters_row [OF at False] have i: "i < length seq_keys"
      and new: "seq_keys ! i \<notin> set (already_compared s)"
      and step: "?W = (s\<lparr>already_compared := already_compared s @ [seq_keys ! i]\<rparr>, Test i 0)"
      by blast+
    have "\<forall>v<length ps. v \<noteq> w \<longrightarrow> row_of (ps ! v) \<noteq> Some i"
      using i1 new by blast
    with i step show ?thesis by simp
  qed
  show ?thesis
    unfolding rows_owned_def
  proof (rule conjI; intro allI impI)
    fix v i assume v: "v < length (snd (fst ?W, ps[w := snd ?W]))"
      and at: "row_of (snd (fst ?W, ps[w := snd ?W]) ! v) = Some i"
    show "i < length seq_keys \<and> seq_keys ! i \<in> set (already_compared (fst (fst ?W, ps[w := snd ?W])))"
    proof (cases "v = w")
      case True
      with v at w have "row_of (snd ?W) = Some i" by simp
      from moved [OF this] show ?thesis by simp
    next
      case False
      with v at have "row_of (ps ! v) = Some i" and "v < length ps" by simp_all
      from i1 [OF this(2) this(1)] show ?thesis by (simp add: worker_keeps_claims)
    qed
  next
    fix w1 w2 i
    assume w1: "w1 < length (snd (fst ?W, ps[w := snd ?W]))"
      and w2: "w2 < length (snd (fst ?W, ps[w := snd ?W]))"
      and at: "row_of (snd (fst ?W, ps[w := snd ?W]) ! w1) = Some i \<and>
               row_of (snd (fst ?W, ps[w := snd ?W]) ! w2) = Some i"
    show "w1 = w2"
    proof (cases "w1 = w")
      case True
      show ?thesis
      proof (cases "w2 = w")
        case True
        with \<open>w1 = w\<close> show ?thesis by simp
      next
        case False
        from True w at have "row_of (snd ?W) = Some i" by simp
        from moved [OF this] False w2 at show ?thesis by simp
      qed
    next
      case False
      show ?thesis
      proof (cases "w2 = w")
        case True
        with w at have "row_of (snd ?W) = Some i" by simp
        from moved [OF this] False w1 at show ?thesis by simp
      next
        case w2w: False
        with False w1 w2 at show ?thesis using i2 [of w1 w2 i] by simp
      qed
    qed
  qed
qed

lemma kept_out_step:
  assumes inv: "kept_out seq_keys i w (s, ps)" and w: "w < length ps" and v: "v < length ps"
  shows "kept_out seq_keys i w
           (fst (distance_matrix_worker seq_len blastn seq_keys lt s (ps ! v)),
            ps[v := snd (distance_matrix_worker seq_len blastn seq_keys lt s (ps ! v))])"
proof -
  let ?W = "distance_matrix_worker seq_len blastn seq_keys lt s (ps ! v)"
  from inv have key: "seq_keys ! i \<in> set (already_compared s)"
    and out: "row_of (ps ! w) \<noteq> Some i"
    by (simp_all add: kept_out_def)
  have grows: "seq_keys ! i \<in> set (already_compared (fst ?W))"
    using key by (rule worker_keeps_claims)
  have "row_of (ps[v := snd ?W] ! w) \<noteq> Some i"
  proof (cases "v = w")
    case False
    then show ?thesis using out by simp
  next
    case True
    have "row_of (snd ?W) \<noteq> Some i"
    proof
      assume "row_of (snd ?W) = Some i"
      from worker_enters_row [OF this] out True key show False by simp
    qed
    with True w show ?thesis by simp
  qed
  with grows show ?thesis by (simp add: kept_out_def)
qed

lemma build_distance_matrix_length [simp]:
  "length (snd (build_distance_matrix seq_len blastn seq_keys lt num_cores sched)) = num_cores"
  by (simp add: build_distance_matrix_def start_distance_matrix_def)

lemma rows_owned_build:
  "rows_owned seq_keys (build_distance_matrix seq_len blastn seq_keys lt num_cores sched)"
  unfolding build_distance_matrix_def
proof (rule run_pool_invariant)
  show "rows_owned seq_keys (start_distance_matrix seq_keys num_cores)"
    by (simp add: rows_owned_def start_distance_matrix_def)
next
  fix s :: "'a matrix_build" and ps w
  assume "rows_owned seq_keys (s, ps)" and "w < length ps"
  then show "rows_owned seq_keys
           (fst (distance_matrix_worker seq_len blastn seq_keys lt s (ps ! w)),
            ps[w := snd (distance_matrix_worker seq_len blastn seq_keys lt s (ps ! w))])"
    by (rule rows_owned_step)
qed

lemma kept_out_run:
  assumes "kept_out seq_keys i w pool" and "w < length (snd pool)"
  shows "kept_out seq_keys i w
           (run_pool (distance_matrix_worker seq_len blastn seq_keys lt) sched pool)"
proof -
  let ?P = "\<lambda>pool. kept_out seq_keys i w pool \<and> w < length (snd pool)"
  have "?P (run_pool (distance_matrix_worker seq_len blastn seq_keys lt) sched pool)"
  proof (rule run_pool_invariant [where P = ?P])
    show "?P pool" using assms by simp
  next
    fix s :: "'a matrix_build" and ps v
    assume "?P (s, ps)" and "v < length ps"
    then show "?P (fst (distance_matrix_worker seq_len blastn seq_keys lt s (ps ! v)),
            ps[v := snd (distance_matrix_worker seq_len blastn seq_keys lt s (ps ! v))])"
      using kept_out_step [of seq_keys i w s ps v] by simp
  qed
  then show ?thesis by simp
qed

lemma row_owner_earlier:
  assumes ab: "a \<le> b"
    and p1: "row_of (snd (build_distance_matrix seq_len blastn seq_keys lt num_cores (take a sched)) ! w1) = Some i"
    and p2: "row_of (snd (build_distance_matrix seq_len blastn seq_keys lt num_cores (take b sched)) ! w2) = Some i"
    and w1: "w1 < num_cores" and w2: "w2 < num_cores"
  shows "w1 = w2"
proof -
  let ?W = "distance_matrix_worker seq_len blastn seq_keys lt"
  let ?A = "build_distance_matrix seq_len blastn seq_keys lt num_cores (take a sched)"
  let ?B = "build_distance_matrix seq_len blastn seq_keys lt num_cores (take b sched)"
  have split: "take b sched = take a sched @ drop a (take b sched)"
    using ab by (metis append_take_drop_id min.absorb1 take_take)
  have B: "?B = run_pool ?W (drop a (take b sched)) ?A"
    unfolding build_distance_matrix_def by (subst split) (simp add: run_pool_append)
  have own: "rows_owned seq_keys ?A" by (rule rows_owned_build)
  have lenA: "length (snd ?A) = num_cores" by simp
  from own p1 w1 lenA have key: "seq_keys ! i \<in> set (already_compared (fst ?A))"
    unfolding rows_owned_def by metis
  show ?thesis
  proof (cases "row_of (snd ?A ! w2) = Some i")
    case True
    with own p1 w1 w2 lenA show ?thesis unfolding rows_owned_def by metis
  next
    case False
    with key have "kept_out seq_keys i w2 ?A" by (simp add: kept_out_def)
    from kept_out_run [OF this, of seq_len blastn lt "drop a (take b sched)"] w2 lenA
    have "kept_out seq_keys i w2 ?B" unfolding B by simp
    with p2 show ?thesis by (simp add: kept_out_def)
  qed
qed

text \<open>
  A merge of two distinct clusters takes a symmetric, non-negative matrix with a zero
  diagonal to one.
\<close>

lemma merge_keeps_well_formed:
  assumes wf: "well_formed n m" and xy: "x < y" and y: "y < n"
    and u: "update_distance_matrix m x y = Inr m'"
  shows "well_formed (n - 1) m'"
proof -
  from wf have sq: "square n m" and sym: "\<And>r c. r < n \<Longrightarrow> c < n \<Longrightarrow> m ! r ! c = m ! c ! r"
    and nn: "\<And>r c. r < n \<Longrightarrow> c < n \<Longrightarrow> 0 \<le> m ! r ! c"
    and dg: "\<And>r. r < n \<Longrightarrow> m ! r ! r = 0"
    by (simp_all add: well_formed_def distances_def)
  from update_distance_matrix_square [OF sq xy y] u have sq': "square (n - 1) m'"
    and pt: "\<And>r c. r < n - 1 \<Longrightarrow> c < n - 1 \<Longrightarrow>
                m' ! r ! c = linked m x y n (shifted y r) (shifted y c)"
    by auto
  have x: "x < n" using xy y by simp
  have lsym: "linked m x y n r c = linked m x y n c r" if "r < n" "c < n" for r c
    using sym [OF that] that by (cases "r = x"; cases "c = x") (simp_all add: linked_def)
  have lnn: "0 \<le> linked m x y n r c" if "r < n" "c < n" for r c
    using nn [OF that] nn [OF y that(1)] nn [OF y that(2)] by (simp add: linked_def)
  have ldg: "linked m x y n r r = 0" if "r < n" for r
    using dg [OF that] nn [OF y that] dg [OF x] by (auto simp: linked_def)
  show ?thesis
    unfolding well_formed_def distances_def
  proof (intro conjI allI impI)
    show "square (n - 1) m'" by (rule sq')
  next
    fix r c assume rc: "r < n - 1" "c < n - 1"
    note s = shifted_less [OF rc(1) y] shifted_less [OF rc(2) y]
    show "m' ! r ! c = m' ! c ! r"
      using pt [OF rc] pt [OF rc(2) rc(1)] lsym [OF s] by simp
    show "0 \<le> m' ! r ! c" using pt [OF rc] lnn [OF s] by simp
  next
    fix r assume r: "r < n - 1"
    show "m' ! r ! r = 0" using pt [OF r r] ldg [OF shifted_less [OF r y]] by simp
  qed
qed

text \<open>
  A failed length test makes the round write 50.0 to both cells, without a \<^verbatim>\<open>blastn\<close> run.
\<close>

lemma length_gate_failure:
  assumes "seq_keys ! i \<noteq> seq_keys ! j"
    and "length_gate_fails (seq_len (seq_keys ! i)) (seq_len (seq_keys ! j)) lt"
  shows "compare_pair seq_len blastn seq_keys lt i j s = (s, pair_writes i j 50)"
  using assms by (simp add: compare_pair_def)

section \<open>The guided builder and empty inputs: lemmas\<close>

lemma run_idle_workers:
  assumes "work s p = (s, q)"
  shows "k \<le> n \<Longrightarrow>
     run_pool work [0..<k] (s, replicate n p) = (s, replicate k q @ replicate (n - k) p)"
proof (induction k)
  case 0
  show ?case by simp
next
  case (Suc k)
  then have k: "k < n" by simp
  let ?ps = "replicate k q @ replicate (n - k) p"
  have at: "?ps ! k = p" using k by (simp add: nth_append)
  have nk: "n - k = Suc (n - Suc k)" using k by simp
  have upd: "?ps[k := q] = replicate (Suc k) q @ replicate (n - Suc k) p"
    by (simp add: list_update_append nk replicate_append_same)
  have "run_pool work [0..<Suc k] (s, replicate n p) = pool_step work (s, ?ps) k"
    using Suc by (simp add: run_pool_append run_pool_Cons)
  also have "\<dots> = (s, ?ps[k := q])"
    using k at assms by (simp add: pool_step_def)
  finally show ?case using upd by simp
qed

lemma run_idle_workers_all:
  assumes "work s p = (s, q)"
  shows "run_pool work [0..<n] (s, replicate n p) = (s, replicate n q)"
  using run_idle_workers [of work s p q n n] assms by simp

lemma joined_replicate [simp]: "joined (s, replicate n Finished)"
  by (simp add: joined_def list_all_iff)

lemma record_hits_length [simp]: "length (record_hits rs g key cl) = length cl"
  by (induction rs arbitrary: cl) simp_all

lemma record_hits_members:
  "g' < length cl \<Longrightarrow> x \<in> set (record_hits rs g key cl ! g') \<Longrightarrow>
     x \<in> set (cl ! g') \<or> (g' = g \<and> x = key)"
proof (induction rs arbitrary: cl)
  case Nil
  then show ?case by simp
next
  case (Cons r rs)
  let ?cl = "if alignments r \<noteq> [] \<and> hsps (hd (alignments r)) \<noteq> [] then cl[g := cl ! g @ [key]] else cl"
  have len: "g' < length ?cl" using Cons.prems(1) by simp
  from Cons.prems(2) have "x \<in> set (record_hits rs g key ?cl ! g')" by simp
  from Cons.IH [OF len this] have "x \<in> set (?cl ! g') \<or> (g' = g \<and> x = key)" .
  then show ?case
    using Cons.prems(1)
    by (cases "g < length cl") (auto simp: nth_list_update split: if_splits)
qed

lemma gate_kept_step:
  assumes inv: "gate_kept seq_len guides lt (s, ps)" and w: "w < length ps"
  shows "gate_kept seq_len guides lt
           (fst (make_guided_clusters_worker seq_len blastn guides all_seq_keys lt s (ps ! w)),
            ps[w := snd (make_guided_clusters_worker seq_len blastn guides all_seq_keys lt s (ps ! w))])"
proof -
  from inv have len: "length (guide_clusters s) = length guides"
    and gate: "\<And>g key. g < length guides \<Longrightarrow> key \<in> set (guide_clusters s ! g) \<Longrightarrow>
         guide_gate_passes (guide_length (guides ! g)) (seq_len key) lt"
    and pos: "\<And>p g k. p \<in> set ps \<Longrightarrow> p = Comparing g k \<Longrightarrow> g < length guides"
    by (auto simp: gate_kept_def)
  have mem: "ps ! w \<in> set ps" using w by simp
  have upd: "\<And>p' q. q \<in> set (ps[w := p']) \<Longrightarrow> q = p' \<or> q \<in> set ps"
    using set_update_subset_insert [of ps w] by fastforce
  show ?thesis
  proof (cases "ps ! w")
    case Finished
    then have "ps[w := Finished] = ps" using w by (metis list_update_id)
    with Finished inv show ?thesis by (simp add: make_guided_clusters_worker_def)
  next
    case (Claiming g)
    define p' where "p' = snd (make_guided_clusters_worker seq_len blastn guides all_seq_keys lt s (Claiming g))"
    define s' where "s' = fst (make_guided_clusters_worker seq_len blastn guides all_seq_keys lt s (Claiming g))"
    have cl: "guide_clusters s' = guide_clusters s"
      by (simp add: s'_def make_guided_clusters_worker_def)
    have p': "\<And>g' k. p' = Comparing g' k \<Longrightarrow> g' < length guides"
      by (auto simp: p'_def make_guided_clusters_worker_def split: if_splits)
    have "gate_kept seq_len guides lt (s', ps[w := p'])"
      unfolding gate_kept_def using len gate cl p' pos upd by (simp; blast)
    then show ?thesis using Claiming by (simp add: s'_def p'_def)
  next
    case (Comparing g k)
    with pos mem have g: "g < length guides" by blast
    show ?thesis
    proof (cases "k < length all_seq_keys")
      case False
      then have "gate_kept seq_len guides lt (s, ps[w := Claiming (g + 1)])"
        unfolding gate_kept_def using len gate pos upd by (simp; blast)
      with Comparing False show ?thesis by (simp add: make_guided_clusters_worker_def)
    next
      case True
      let ?s = "compare_candidate seq_len blastn guides all_seq_keys lt g k s"
      have len': "length (guide_clusters ?s) = length guides"
        using len by (simp add: compare_candidate_def)
      have gate': "guide_gate_passes (guide_length (guides ! g')) (seq_len key) lt"
        if g': "g' < length guides" and key: "key \<in> set (guide_clusters ?s ! g')" for g' key
      proof (cases "guide_gate_passes (guide_length (guides ! g)) (seq_len (all_seq_keys ! k)) lt")
        case False
        with key have "key \<in> set (guide_clusters s ! g')" by (simp add: compare_candidate_def)
        with gate g' show ?thesis by blast
      next
        case pass: True
        with key have "key \<in> set (record_hits (blastn (guides ! g) (all_seq_keys ! k)) g
            (all_seq_keys ! k) (guide_clusters s) ! g')"
          by (simp add: compare_candidate_def)
        from record_hits_members [OF _ this] g' len
        have "key \<in> set (guide_clusters s ! g') \<or> (g' = g \<and> key = all_seq_keys ! k)" by simp
        with gate g' pass show ?thesis by blast
      qed
      have pos': "\<And>p g' k'. p \<in> set (ps[w := Comparing g (k + 1)]) \<Longrightarrow> p = Comparing g' k' \<Longrightarrow>
          g' < length guides"
        using pos upd g by blast
      have "gate_kept seq_len guides lt (?s, ps[w := Comparing g (k + 1)])"
        unfolding gate_kept_def using len' gate' pos' by (simp; blast)
      with Comparing True show ?thesis by (simp add: make_guided_clusters_worker_def)
    qed
  qed
qed

lemma gate_kept_build:
  "gate_kept seq_len guides lt
     (build_guided_clusters seq_len blastn guides all_seq_keys lt num_cores sched)"
  unfolding build_guided_clusters_def
proof (rule run_pool_invariant)
  show "gate_kept seq_len guides lt (guided_pool guides num_cores)"
    by (simp add: gate_kept_def guided_pool_def)
next
  fix s :: "('b, 'a) guided_build" and ps w
  assume "gate_kept seq_len guides lt (s, ps)" and "w < length ps"
  then show "gate_kept seq_len guides lt
           (fst (make_guided_clusters_worker seq_len blastn guides all_seq_keys lt s (ps ! w)),
            ps[w := snd (make_guided_clusters_worker seq_len blastn guides all_seq_keys lt s (ps ! w))])"
    by (rule gate_kept_step)
qed

lemma no_guides_idle:
  "make_guided_clusters_worker seq_len blastn [] all_seq_keys lt s (Claiming 0) = (s, Finished)"
  by (simp add: make_guided_clusters_worker_def)

lemma no_guides_run:
  "build_guided_clusters seq_len blastn [] all_seq_keys lt num_cores [0..<num_cores] =
     (\<lparr>guide_clusters = [], guides_compared = [], guide_blast_calls = []\<rparr>,
      replicate num_cores Finished)"
  unfolding build_guided_clusters_def guided_pool_def
  by (simp add: run_idle_workers_all no_guides_idle)




section \<open>The clustering engine: claims\<close>

text \<open>
  C1 (as amended). For every merge threshold below 99, the value the scan's minimum starts
  at, and every cluster list with its square distance matrix, a call of
  \<^verbatim>\<open>merge_closest_clusters\<close> (one that the recursion limit lets in) returns the current
  cluster list exactly when the minimum found by the scan exceeds the threshold or at most
  one cluster remains; in every other state it appends cluster \<open>y\<close> to cluster \<open>x\<close>, deletes
  cluster \<open>y\<close>, and continues with the recursive call on the shorter list and the smaller
  matrix.
\<close>

theorem merge_closest_clusters_step:
  assumes "threshold < 99" and "square (length clusters) m"
  shows "\<exists>md x y. find_closest m = Inr (md, x, y) \<and>
      (if threshold < md \<or> length clusters \<le> 1
       then merge_pass clusters m threshold = Some (Inr (Return clusters)) \<and>
            merge_closest_clusters (Suc depth) clusters m threshold = Some (Inr clusters)
       else x < y \<and> y < length clusters \<and>
            (\<exists>m'. square (length clusters - 1) m' \<and>
               merge_pass clusters m threshold =
                 Some (Inr (Recurse (del_at y (clusters[x := clusters ! x @ clusters ! y])) m')) \<and>
               merge_closest_clusters (Suc depth) clusters m threshold =
                 merge_closest_clusters depth
                   (del_at y (clusters[x := clusters ! x @ clusters ! y])) m' threshold))"
proof -
  from find_closest_square [OF assms(2)] obtain md x y where f: "find_closest m = Inr (md, x, y)"
    by blast
  have len: "length m = length clusters" using assms(2) by (simp add: square_def)
  show ?thesis
  proof (cases "threshold < md")
    case True
    have "merge_pass clusters m threshold = Some (Inr (Return clusters))"
      by (rule merge_pass_return [OF f True])
    moreover from this
    have "merge_closest_clusters (Suc depth) clusters m threshold = Some (Inr clusters)"
      by simp
    ultimately show ?thesis using f True by simp
  next
    case False
    with assms(1) have "md < 99" by simp
    with find_closest_result [OF f] have xy: "x < y" "y < length m" by auto
    then have many: "\<not> length clusters \<le> 1" and y: "y < length clusters" and ne: "x \<noteq> y"
      using len by simp_all
    from update_distance_matrix_square [OF assms(2) xy(1) y] obtain m' where
      u: "update_distance_matrix m x y = Inr m'" and sq: "square (length clusters - 1) m'"
      by blast
    let ?cs = "del_at y (clusters[x := clusters ! x @ clusters ! y])"
    have mp: "merge_pass clusters m threshold = Some (Inr (Recurse ?cs m'))"
      using merge_pass_merges [OF f False ne y] u by simp
    then have "merge_closest_clusters (Suc depth) clusters m threshold =
        merge_closest_clusters depth ?cs m' threshold"
      by simp
    with mp sq xy(1) y have "x < y \<and> y < length clusters \<and>
            (\<exists>m'. square (length clusters - 1) m' \<and>
               merge_pass clusters m threshold = Some (Inr (Recurse ?cs m')) \<and>
               merge_closest_clusters (Suc depth) clusters m threshold =
                 merge_closest_clusters depth ?cs m' threshold)"
      by blast
    with f False many show ?thesis by simp
  qed
qed

theorem merge_closest_clusters_step_witness:
  "(1::real) < 99 \<and> square (length [''A'', ''B'']) [[0, 1 / 2], [1 / 2, 0]] \<and>
   find_closest [[0, 1 / 2], [1 / 2, 0]] = Inr (1 / 2, 0, 1) \<and>
   merge_pass [''A'', ''B''] [[0, 1 / 2], [1 / 2, 0]] 1 = Some (Inr (Recurse [''AB''] [[0]])) \<and>
   merge_closest_clusters (Suc 1) [''A'', ''B''] [[0, 1 / 2], [1 / 2, 0]] 1 =
     merge_closest_clusters 1 [''AB''] [[0]] 1"
proof -
  have h1: "(1::real) < 99" by simp
  have h2: "square (length [''A'', ''B'']) [[0, 1 / 2], [1 / 2, 0]]"
    by (simp add: square_def less_Suc_eq)
  have f: "find_closest [[0, 1 / 2], [1 / 2, 0]] = Inr (1 / 2, 0, 1)"
    by (simp add: find_closest_def cell_def)
  have mp: "merge_pass [''A'', ''B''] [[0, 1 / 2], [1 / 2, 0]] 1 = Some (Inr (Recurse [''AB''] [[0]]))"
    by code_simp
  from merge_closest_clusters_step [OF h1 h2, of 1] f mp h1 h2 show ?thesis
    by (auto simp: del_at_def)
qed

text \<open>
  C1 as stated also promises a return whenever one cluster remains. The code has no such
  test: with one cluster and threshold 99 the scan leaves \<^verbatim>\<open>min_distance = 99\<close>, which
  does not exceed the threshold, and \<^verbatim>\<open>cluster1 = cluster2 = 0\<close>; the loop that appends
  cluster 0 to itself never ends.
\<close>

theorem single_cluster_threshold_99_counterexample:
  "merge_closest_clusters (Suc 0) [''A''] [[0]] 99 = None"
  by (rule merge_closest_clusters_hangs) (simp_all add: find_closest_small)



text \<open>
  C5. The scan examines the index pairs \<open>x < y\<close> in row-major order (it is the walk
  \<open>scan_pairs\<close> along \<open>row_major_pairs\<close>), selects a pair of minimum value, and among
  the pairs of minimum value the first in that order; it stops at the first pair of distance
  exactly 0, whatever the rest of the matrix holds. Distances are non-negative, and a pair
  is selected when some distance lies below the initial minimum 99.
\<close>

theorem scan_selects_first_minimum:
  "find_closest m = scan_pairs m (row_major_pairs (length m)) (99, 0, 0) \<and>
   ((\<forall>x y. x < y \<and> y < length m \<longrightarrow> y < length (m ! x) \<and> 0 \<le> m ! x ! y) \<longrightarrow>
      (\<exists>md c1 c2. find_closest m = Inr (md, c1, c2) \<and>
         (if \<exists>x y. x < y \<and> y < length m \<and> m ! x ! y < 99
          then c1 < c2 \<and> c2 < length m \<and> md = m ! c1 ! c2 \<and>
               (\<forall>x y. x < y \<and> y < length m \<longrightarrow>
                  md \<le> m ! x ! y \<and>
                  (m ! x ! y = md \<longrightarrow> (x, y) = (c1, c2) \<or> lex_less (c1, c2) (x, y)))
          else (md, c1, c2) = (99, 0, 0)))) \<and>
   (x < y \<and> y < length m \<and> cell m x y = Inr 0 \<and>
    (\<forall>a b. a < b \<and> b < length m \<and> lex_less (a, b) (x, y) \<longrightarrow> b < length (m ! a) \<and> 0 < m ! a ! b) \<longrightarrow>
      find_closest m = Inr (0, x, y))"
proof (intro conjI impI)
  show "find_closest m = scan_pairs m (row_major_pairs (length m)) (99, 0, 0)"
    by (rule find_closest_pairs)
next
  let ?ps = "row_major_pairs (length m)"
  assume wf: "\<forall>x y. x < y \<and> y < length m \<longrightarrow> y < length (m ! x) \<and> 0 \<le> m ! x ! y"
  have rng: "\<forall>(x, y)\<in>set ?ps. x < length m \<and> y < length (m ! x) \<and> 0 \<le> m ! x ! y"
    using wf by (auto simp: set_row_major_pairs)
  from scan_pairs_first_min [OF rng, of 99 0 0] obtain p' where
    res: "find_closest m = Inr p'" and
    alt: "if \<forall>(x, y)\<in>set ?ps. 99 \<le> m ! x ! y then p' = (99, 0, 0)
          else \<exists>as x y bs. ?ps = as @ (x, y) # bs \<and> p' = (m ! x ! y, x, y) \<and> m ! x ! y < 99 \<and>
                 (\<forall>(a, b)\<in>set as. m ! x ! y < m ! a ! b) \<and>
                 (\<forall>(a, b)\<in>set ?ps. m ! x ! y \<le> m ! a ! b)"
    by (auto simp: find_closest_pairs)
  have ex_iff: "(\<exists>x y. x < y \<and> y < length m \<and> m ! x ! y < 99) \<longleftrightarrow>
                \<not> (\<forall>(x, y)\<in>set ?ps. 99 \<le> m ! x ! y)"
    by (auto simp: set_row_major_pairs not_le)
  show "\<exists>md c1 c2. find_closest m = Inr (md, c1, c2) \<and>
         (if \<exists>x y. x < y \<and> y < length m \<and> m ! x ! y < 99
          then c1 < c2 \<and> c2 < length m \<and> md = m ! c1 ! c2 \<and>
               (\<forall>x y. x < y \<and> y < length m \<longrightarrow>
                  md \<le> m ! x ! y \<and>
                  (m ! x ! y = md \<longrightarrow> (x, y) = (c1, c2) \<or> lex_less (c1, c2) (x, y)))
          else (md, c1, c2) = (99, 0, 0))"
  proof (cases "\<exists>x y. x < y \<and> y < length m \<and> m ! x ! y < 99")
    case False
    with alt ex_iff have "p' = (99, 0, 0)" by simp
    with res False show ?thesis by simp
  next
    case True
    with ex_iff have "\<not> (\<forall>(x, y)\<in>set ?ps. 99 \<le> m ! x ! y)" by simp
    with alt have "\<exists>as x y bs. ?ps = as @ (x, y) # bs \<and> p' = (m ! x ! y, x, y) \<and> m ! x ! y < 99 \<and>
                 (\<forall>(a, b)\<in>set as. m ! x ! y < m ! a ! b) \<and>
                 (\<forall>(a, b)\<in>set ?ps. m ! x ! y \<le> m ! a ! b)"
      by (simp only: if_False)
    then obtain as c1 c2 bs where
      s: "?ps = as @ (c1, c2) # bs" and p': "p' = (m ! c1 ! c2, c1, c2)" and
      before: "\<forall>(a, b)\<in>set as. m ! c1 ! c2 < m ! a ! b" and
      all: "\<forall>(a, b)\<in>set ?ps. m ! c1 ! c2 \<le> m ! a ! b"
      by blast
    have "(c1, c2) \<in> set ?ps" unfolding s by simp
    then have c: "c1 < c2" "c2 < length m" by (simp_all add: set_row_major_pairs)
    have sorted: "\<forall>q\<in>set bs. lex_less (c1, c2) q"
      using sorted_row_major_pairs [of "length m"] unfolding s
      by (auto simp: sorted_wrt_append)
    have "\<forall>x y. x < y \<and> y < length m \<longrightarrow>
            m ! c1 ! c2 \<le> m ! x ! y \<and>
            (m ! x ! y = m ! c1 ! c2 \<longrightarrow> (x, y) = (c1, c2) \<or> lex_less (c1, c2) (x, y))"
    proof (intro allI impI)
      fix x y assume xy: "x < y \<and> y < length m"
      then have mem: "(x, y) \<in> set ?ps" by (simp add: set_row_major_pairs)
      have le: "m ! c1 ! c2 \<le> m ! x ! y" using all mem by auto
      have "m ! x ! y = m ! c1 ! c2 \<longrightarrow> (x, y) = (c1, c2) \<or> lex_less (c1, c2) (x, y)"
      proof
        assume eq: "m ! x ! y = m ! c1 ! c2"
        have "(x, y) \<notin> set as" using before eq by auto
        with mem have "(x, y) = (c1, c2) \<or> (x, y) \<in> set bs" unfolding s by auto
        with sorted show "(x, y) = (c1, c2) \<or> lex_less (c1, c2) (x, y)" by auto
      qed
      with le show "m ! c1 ! c2 \<le> m ! x ! y \<and>
            (m ! x ! y = m ! c1 ! c2 \<longrightarrow> (x, y) = (c1, c2) \<or> lex_less (c1, c2) (x, y))" by simp
    qed
    with res p' c True show ?thesis by simp
  qed
next
  assume a: "x < y \<and> y < length m \<and> cell m x y = Inr 0 \<and>
    (\<forall>a b. a < b \<and> b < length m \<and> lex_less (a, b) (x, y) \<longrightarrow> b < length (m ! a) \<and> 0 < m ! a ! b)"
  then have xy: "x < y" "y < length m" and z: "cell m x y = Inr 0" by simp_all
  from row_major_pairs_split [OF xy] obtain as bs where
    s: "row_major_pairs (length m) = as @ (x, y) # bs" and
    lt: "\<forall>q\<in>set as. lex_less q (x, y)"
    by blast
  have mem: "set as \<subseteq> set (row_major_pairs (length m))" unfolding s by auto
  have pos: "\<forall>(a, b)\<in>set as. a < length m \<and> b < length (m ! a) \<and> 0 < m ! a ! b"
  proof (clarify)
    fix a b assume ab: "(a, b) \<in> set as"
    with mem have "a < b \<and> b < length m" by (auto simp: set_row_major_pairs)
    moreover from ab lt have "lex_less (a, b) (x, y)" by blast
    ultimately show "a < length m \<and> b < length (m ! a) \<and> 0 < m ! a ! b" using a by auto
  qed
  from z have rng: "x < length m" "y < length (m ! x)" "m ! x ! y = 0"
    by (auto simp: cell_def split: if_splits)
  show "find_closest m = Inr (0, x, y)"
    unfolding find_closest_pairs s
    by (rule scan_pairs_short_circuit [OF pos _ rng]) simp
qed

theorem scan_selects_first_minimum_witness:
  "find_closest [[0, 5, 1], [5, 0, 1], [1, 1, 0]] = Inr (1, 0, 2) \<and>
   [[0, 5, 1], [5, 0, 1], [1, 1, 0 :: real]] ! 1 ! 2 = 1 \<and> lex_less (0, 2) (1, 2) \<and>
   find_closest [[0, 3, 0], [3], [0, 0, 0]] = Inr (0, 0, 2)"
proof -
  let ?m = "[[0, 5, 1], [5, 0, 1], [1, 1, 0 :: real]]"
  let ?r = "[[0, 3, 0], [3], [0, 0, 0 :: real]]"
  have wf: "\<forall>x y. x < y \<and> y < length ?m \<longrightarrow> y < length (?m ! x) \<and> 0 \<le> ?m ! x ! y"
    by (auto simp: less_Suc_eq)
  have some: "\<exists>x y. x < y \<and> y < length ?m \<and> ?m ! x ! y < 99"
    by (rule exI [of _ 0], rule exI [of _ 1]) simp
  have ev: "find_closest ?m = Inr (1, 0, 2)" by code_simp
  from scan_selects_first_minimum [of ?m] wf obtain md c1 c2 where
    res: "find_closest ?m = Inr (md, c1, c2)" and
    alt: "if \<exists>x y. x < y \<and> y < length ?m \<and> ?m ! x ! y < 99
          then c1 < c2 \<and> c2 < length ?m \<and> md = ?m ! c1 ! c2 \<and>
               (\<forall>x y. x < y \<and> y < length ?m \<longrightarrow>
                  md \<le> ?m ! x ! y \<and>
                  (?m ! x ! y = md \<longrightarrow> (x, y) = (c1, c2) \<or> lex_less (c1, c2) (x, y)))
          else (md, c1, c2) = (99, 0, 0)"
    by blast
  from res ev have sel: "md = 1" "c1 = 0" "c2 = 2" by simp_all
  from alt some have "\<forall>x y. x < y \<and> y < length ?m \<longrightarrow>
                  md \<le> ?m ! x ! y \<and>
                  (?m ! x ! y = md \<longrightarrow> (x, y) = (c1, c2) \<or> lex_less (c1, c2) (x, y))"
    by (simp only: if_True) blast
  then have "(1::nat) < 2 \<and> 2 < length ?m \<longrightarrow>
                  md \<le> ?m ! 1 ! 2 \<and>
                  (?m ! 1 ! 2 = md \<longrightarrow> (1, 2) = (c1, c2) \<or> lex_less (c1, c2) (1, 2))"
    by blast
  then have tie: "lex_less (0, 2) (1, 2 :: nat)"
    unfolding sel by simp
  have pre: "(0::nat) < 2 \<and> 2 < length ?r \<and> cell ?r 0 2 = Inr 0 \<and>
    (\<forall>a b. a < b \<and> b < length ?r \<and> lex_less (a, b) (0, 2) \<longrightarrow> b < length (?r ! a) \<and> 0 < ?r ! a ! b)"
    by (auto simp: cell_def lex_less_def less_Suc_eq)
  from scan_selects_first_minimum [of ?r 0 2] pre
  have sc: "find_closest ?r = Inr (0, 0, 2)" by blast
  from tie ev sc show ?thesis by simp
qed

text \<open>
  C10. \<^verbatim>\<open>merge_closest_clusters\<close> terminates on every input whose threshold is below 99:
  it returns or raises, whatever the recursion limit leaves of the stack. It returns a list
  of clusters when the matrix is square and as long as the cluster list and the stack has
  room for one nested call per cluster and one more; a call that the recursion limit
  refuses raises \<^verbatim>\<open>RuntimeError\<close>. Every recursive call has one cluster and one matrix
  row less, and with a single cluster the scan leaves the minimum at 99, above the
  threshold. The bound is needed: with one non-empty cluster and a threshold of 99 or more
  the function merges cluster 0 into itself and does not terminate.
\<close>

theorem merge_closest_clusters_terminates_below_99:
  "(threshold < 99 \<longrightarrow> (\<exists>r. merge_closest_clusters depth clusters m threshold = Some r)) \<and>
   (threshold < 99 \<and> square (length clusters) m \<and> length clusters < depth \<longrightarrow>
      (\<exists>cs. merge_closest_clusters depth clusters m threshold = Some (Inr cs))) \<and>
   merge_closest_clusters 0 clusters m threshold = Some (Inl RuntimeError) \<and>
   (\<forall>cs m'. merge_pass clusters m threshold = Some (Inr (Recurse cs m')) \<longrightarrow>
      Suc (length cs) = length clusters \<and> Suc (length m') = length m \<and>
      merge_closest_clusters (Suc depth) clusters m threshold =
        merge_closest_clusters depth cs m' threshold) \<and>
   find_closest [row] = Inr (99, 0, 0) \<and>
   (threshold < 99 \<longrightarrow> merge_closest_clusters (Suc depth) [c] [row] threshold = Some (Inr [c])) \<and>
   (99 \<le> threshold \<and> c \<noteq> [] \<longrightarrow> merge_closest_clusters (Suc depth) [c] [row] threshold = None)"
proof (intro conjI impI allI)
  assume "threshold < 99"
  then show "\<exists>r. merge_closest_clusters depth clusters m threshold = Some r"
    by (rule merge_closest_clusters_total)
next
  assume "threshold < 99 \<and> square (length clusters) m \<and> length clusters < depth"
  then show "\<exists>cs. merge_closest_clusters depth clusters m threshold = Some (Inr cs)"
    using merge_closest_clusters_returns [of threshold clusters m depth] by blast
next
  show "merge_closest_clusters 0 clusters m threshold = Some (Inl RuntimeError)" by simp
next
  fix cs m' assume mp: "merge_pass clusters m threshold = Some (Inr (Recurse cs m'))"
  from merge_pass_recurse [OF mp] show "Suc (length cs) = length clusters"
    and "Suc (length m') = length m"
    by simp_all
  from mp show "merge_closest_clusters (Suc depth) clusters m threshold =
        merge_closest_clusters depth cs m' threshold"
    by simp
next
  show f: "find_closest [row] = Inr (99, 0, 0)" by (simp add: find_closest_small)
  {
    assume "threshold < 99"
    then have "merge_pass [c] [row] threshold = Some (Inr (Return [c]))"
      by (intro merge_pass_return [OF f]) simp
    then show "merge_closest_clusters (Suc depth) [c] [row] threshold = Some (Inr [c])"
      by simp
  }
  {
    assume "99 \<le> threshold \<and> c \<noteq> []"
    then show "merge_closest_clusters (Suc depth) [c] [row] threshold = None"
      by (intro merge_closest_clusters_hangs [OF _ f]) simp_all
  }
qed

theorem merge_closest_clusters_terminates_below_99_witness:
  "merge_pass [''A'', ''B''] [[0, 1 / 2], [1 / 2, 0]] 1 = Some (Inr (Recurse [''AB''] [[0]])) \<and>
   merge_closest_clusters 3 [''A'', ''B''] [[0, 1 / 2], [1 / 2, 0]] 1 = Some (Inr [''AB'']) \<and>
   merge_closest_clusters 1 [''A'', ''B''] [[0, 1 / 2], [1 / 2, 0]] 1 = Some (Inl RuntimeError) \<and>
   Suc (length [''AB'']) = length [''A'', ''B''] \<and>
   merge_closest_clusters (Suc 0) [''AB''] [[0]] 1 = Some (Inr [''AB'']) \<and>
   merge_closest_clusters (Suc 0) [''AB''] [[0]] 99 = None"
proof -
  let ?cl = "[''A'', ''B'']" and ?m = "[[0, 1 / 2], [1 / 2, 0 :: real]]"
  have mp: "merge_pass ?cl ?m 1 = Some (Inr (Recurse [''AB''] [[0]]))"
    by code_simp
  have ev: "merge_closest_clusters 3 ?cl ?m 1 = Some (Inr [''AB''])"
    by code_simp
  have lt: "(1::real) < 99" and ge: "(99::real) \<le> 99 \<and> ''AB'' \<noteq> []" by simp_all
  have sq: "(1::real) < 99 \<and> square (length ?cl) ?m \<and> length ?cl < 3"
    by (simp add: square_def less_Suc_eq)
  note t1 = merge_closest_clusters_terminates_below_99 [of 1 0 ?cl ?m "[0]" "''AB''"]
  note t2 = merge_closest_clusters_terminates_below_99 [of 99 0 ?cl ?m "[0]" "''AB''"]
  note t3 = merge_closest_clusters_terminates_below_99 [of 1 3 ?cl ?m "[0]" "''AB''"]
  from t1 mp have len: "Suc (length [''AB'']) = length ?cl" by blast
  from t1 mp have "merge_closest_clusters (Suc 0) ?cl ?m 1 = merge_closest_clusters 0 [''AB''] [[0]] 1"
    by blast
  moreover from t1 have "merge_closest_clusters 0 [''AB''] [[0 :: real]] (1 :: real) = Some (Inl RuntimeError)"
    by simp
  ultimately have over: "merge_closest_clusters 1 ?cl ?m 1 = Some (Inl RuntimeError)" by simp
  from t1 lt have one: "merge_closest_clusters (Suc 0) [''AB''] [[0]] 1 = Some (Inr [''AB''])" by blast
  from t2 ge have hang: "merge_closest_clusters (Suc 0) [''AB''] [[0]] 99 = None" by blast
  from t3 sq have "\<exists>cs. merge_closest_clusters 3 ?cl ?m 1 = Some (Inr cs)" by blast
  with len over one hang mp ev show ?thesis by blast
qed

section \<open>The distance-matrix builder: claims\<close>

text \<open>
  C2, evaluated on the code. The matrix that \<^verbatim>\<open>make_distance_matrix\<close> returns is not always
  symmetric with a zero diagonal: a worker changes a cell by copying the row out of the
  shared list, changing the copy and storing it back, outside the lock, and two workers
  do so on the same rows. Keys \<open>a\<close>, \<open>b\<close> of lengths 100 and 160, length threshold 0.5, a
  comparator that reports no hit, two workers. In the first run both workers find 99 in
  their cell of the pair before either writes; worker 0 stores 10 in \<open>(0, 1)\<close>, worker 1
  stores 50 in \<open>(1, 0)\<close> and then in \<open>(0, 1)\<close>, and worker 0 stores 10 in \<open>(1, 0)\<close> last:
  the matrix returned has \<open>(0, 1) = 50\<close> and \<open>(1, 0) = 10\<close>. In the second run, with both
  lengths 100, worker 1 copies row 0 before worker 0 stores 0 in \<open>(0, 0)\<close> and stores its
  copy, with 10 in \<open>(0, 1)\<close>, after: the 0 is lost, and the matrix returned has
  \<open>(0, 0) = 99\<close>.
\<close>

theorem unlocked_row_writes_break_symmetry:
  "make_distance_matrix (\<lambda>k. if k = CHR ''a'' then 100 else 160) (\<lambda>s q. [Blast_record []]) ''ab''
     (1 / 2) 2
     [0, 0, 0, 0, 0, 0, 1, 1, 1, 0, 0, 1, 1, 1, 1, 0, 0, 0, 0, 0, 0, 1, 1, 1, 1, 1, 1, 1] =
     Some [[0, 50], [10, 0]] \<and>
   make_distance_matrix (\<lambda>k. 100) (\<lambda>s q. [Blast_record []]) ''ab'' (1 / 2) 2
     [0, 1, 1, 1, 1, 1, 1, 0, 0, 0, 1, 0, 0, 0, 0, 0, 1, 1, 1, 1, 1, 1, 1] =
     Some [[99, 10], [10, 0]]"
  by code_simp

text \<open>
  C3, evaluated on the code. Two sequences of lengths 100 and 160 with length threshold
  0.5, and a worker alone on the fresh matrix. At the head of the round of row 0 (length
  100) and column 1 the test \<open>100 > 160 * 1.5 \<or> 100 < 160 * 0.5\<close> is false: \<^verbatim>\<open>blastn\<close> is
  run and both cells take the comparator's value (10.0 for no hit). At the head of the
  round of row 1 (length 160) and column 0 the test \<open>160 > 100 * 1.5\<close> is true: both cells
  take 50.0 and \<^verbatim>\<open>blastn\<close> is not run.
\<close>

theorem length_gate_depends_on_row:
  "compare_pair (\<lambda>k. if k = CHR ''a'' then 100 else 160) (\<lambda>s q. [Blast_record []]) ''ab'' (1 / 2) 0 1
     (fst (start_distance_matrix ''ab'' 2)) =
     (\<lparr>dist_matrix = [[99, 99], [99, 99]], already_compared = [],
       blast_calls = [(CHR ''a'', CHR ''b'')]\<rparr>,
      [Get 0, Put 0 1 10, Get 1, Put 1 0 10]) \<and>
   run_pool
     (distance_matrix_worker (\<lambda>k. if k = CHR ''a'' then 100 else 160) (\<lambda>s q. [Blast_record []])
        ''ab'' (1 / 2))
     [0, 0, 0, 0, 0] (fst (start_distance_matrix ''ab'' 2), [Test 0 1]) =
     (\<lparr>dist_matrix = [[99, 10], [10, 99]], already_compared = [],
       blast_calls = [(CHR ''a'', CHR ''b'')]\<rparr>,
      [Write 0 1 [] [10, 99]]) \<and>
   compare_pair (\<lambda>k. if k = CHR ''a'' then 100 else 160) (\<lambda>s q. [Blast_record []]) ''ab'' (1 / 2) 1 0
     (fst (start_distance_matrix ''ab'' 2)) =
     (\<lparr>dist_matrix = [[99, 99], [99, 99]], already_compared = [], blast_calls = []\<rparr>,
      [Get 1, Put 1 0 50, Get 0, Put 0 1 50]) \<and>
   run_pool
     (distance_matrix_worker (\<lambda>k. if k = CHR ''a'' then 100 else 160) (\<lambda>s q. [Blast_record []])
        ''ab'' (1 / 2))
     [0, 0, 0, 0, 0] (fst (start_distance_matrix ''ab'' 2), [Test 1 0]) =
     (\<lparr>dist_matrix = [[99, 50], [50, 99]], already_compared = [], blast_calls = []\<rparr>,
      [Write 1 0 [] [99, 50]])"
  by code_simp

text \<open>
  C8, evaluated on the code. The same two keys, lengths and comparator with two workers:
  along the schedule where worker 0 processes both rows the matrix is
  \<open>[[0, 10], [10, 0]]\<close>; along the schedule where worker 1 claims row 1 and finishes the
  round of the pair before worker 0 reads its cell of it, the matrix is
  \<open>[[0, 50], [50, 0]]\<close>.
\<close>

theorem schedule_changes_distance_matrix:
  "make_distance_matrix (\<lambda>k. if k = CHR ''a'' then 100 else 160) (\<lambda>s q. [Blast_record []]) ''ab''
     (1 / 2) 2 [0, 0, 0, 0, 0, 0, 0, 0, 0, 0, 0, 0, 0, 0, 0, 0, 0, 0, 0, 0, 1, 1, 1] =
     Some [[0, 10], [10, 0]] \<and>
   make_distance_matrix (\<lambda>k. if k = CHR ''a'' then 100 else 160) (\<lambda>s q. [Blast_record []]) ''ab''
     (1 / 2) 2 [0, 1, 1, 1, 1, 1, 1, 1, 0, 0, 0, 0, 0, 0, 0, 0, 1, 1, 1, 1, 1, 1, 1] =
     Some [[0, 50], [50, 0]]"
  by code_simp

text \<open>
  C9. A worker enters the comparison loop of row \<open>i\<close> only through the step under the lock
  that finds the key of row \<open>i\<close> absent from \<^verbatim>\<open>already_compared\<close> and appends it: the
  step that takes it to the head of the first round of the loop is that step, and so is
  every step that takes it from outside the loop of row \<open>i\<close> to inside it. Whenever, at two
  moments \<open>a\<close> and \<open>b\<close> of a run of the pool, workers \<open>w1\<close> and \<open>w2\<close> stand in the comparison
  loop of the same row, they are the same worker.
\<close>

theorem row_processed_by_one_worker:
  "(distance_matrix_worker seq_len blastn seq_keys lt s p = (s', Test i 0) \<longrightarrow>
      p = Claim i \<and> seq_keys ! i \<notin> set (already_compared s) \<and>
      already_compared s' = already_compared s @ [seq_keys ! i]) \<and>
   (distance_matrix_worker seq_len blastn seq_keys lt s p = (s', p') \<and>
    row_of p' = Some i \<and> row_of p \<noteq> Some i \<longrightarrow>
      p = Claim i \<and> p' = Test i 0 \<and> seq_keys ! i \<notin> set (already_compared s) \<and>
      already_compared s' = already_compared s @ [seq_keys ! i]) \<and>
   (row_of (snd (build_distance_matrix seq_len blastn seq_keys lt num_cores (take a sched)) ! w1) =
      Some i \<and>
    row_of (snd (build_distance_matrix seq_len blastn seq_keys lt num_cores (take b sched)) ! w2) =
      Some i \<and>
    w1 < num_cores \<and> w2 < num_cores \<longrightarrow> w1 = w2)"
proof (intro conjI impI)
  assume st: "distance_matrix_worker seq_len blastn seq_keys lt s p = (s', Test i 0)"
  have out: "row_of p \<noteq> Some i"
  proof (cases p)
    case (Test i' j)
    with st show ?thesis by (auto simp: distance_matrix_worker_def split: if_splits)
  next
    case (Write i' j ops row)
    with st show ?thesis by (cases ops) (auto simp: distance_matrix_worker_def)
  qed simp_all
  from st have "row_of (snd (distance_matrix_worker seq_len blastn seq_keys lt s p)) = Some i"
    by simp
  from worker_enters_row [OF this out]
  have e: "p = Claim i \<and> i < length seq_keys \<and>
      seq_keys ! i \<notin> set (already_compared s) \<and>
      distance_matrix_worker seq_len blastn seq_keys lt s p =
        (s\<lparr>already_compared := already_compared s @ [seq_keys ! i]\<rparr>, Test i 0)" .
  from e show "p = Claim i" and "seq_keys ! i \<notin> set (already_compared s)" by blast+
  from e st have "s' = s\<lparr>already_compared := already_compared s @ [seq_keys ! i]\<rparr>" by simp
  then show "already_compared s' = already_compared s @ [seq_keys ! i]" by simp
next
  assume a: "distance_matrix_worker seq_len blastn seq_keys lt s p = (s', p') \<and>
    row_of p' = Some i \<and> row_of p \<noteq> Some i"
  then have st: "distance_matrix_worker seq_len blastn seq_keys lt s p = (s', p')"
    and out: "row_of p \<noteq> Some i" by blast+
  from a have "row_of (snd (distance_matrix_worker seq_len blastn seq_keys lt s p)) = Some i"
    by simp
  from worker_enters_row [OF this out]
  have e: "p = Claim i \<and> i < length seq_keys \<and>
      seq_keys ! i \<notin> set (already_compared s) \<and>
      distance_matrix_worker seq_len blastn seq_keys lt s p =
        (s\<lparr>already_compared := already_compared s @ [seq_keys ! i]\<rparr>, Test i 0)" .
  from e show "p = Claim i" and "seq_keys ! i \<notin> set (already_compared s)" by blast+
  from e st have eq: "s' = s\<lparr>already_compared := already_compared s @ [seq_keys ! i]\<rparr>"
    and "p' = Test i 0" by simp_all
  then show "p' = Test i 0" by simp
  from eq show "already_compared s' = already_compared s @ [seq_keys ! i]" by simp
next
  assume a: "row_of (snd (build_distance_matrix seq_len blastn seq_keys lt num_cores (take a sched)) ! w1) =
      Some i \<and>
    row_of (snd (build_distance_matrix seq_len blastn seq_keys lt num_cores (take b sched)) ! w2) =
      Some i \<and>
    w1 < num_cores \<and> w2 < num_cores"
  show "w1 = w2"
  proof (cases "a \<le> b")
    case True
    from row_owner_earlier [OF True] a show ?thesis by blast
  next
    case False
    then have "b \<le> a" by simp
    from row_owner_earlier [OF this] a show ?thesis by metis
  qed
qed

theorem row_processed_by_one_worker_witness:
  "distance_matrix_worker (\<lambda>k. 100) (\<lambda>s q. [Blast_record []]) ''ab'' (1 / 2)
     (fst (start_distance_matrix ''ab'' 2)) (Claim 0) =
     (\<lparr>dist_matrix = [[99, 99], [99, 99]], already_compared = ''a'', blast_calls = []\<rparr>,
      Test 0 0) \<and>
   row_of (snd (build_distance_matrix (\<lambda>k. 100) (\<lambda>s q. [Blast_record []]) ''ab'' (1 / 2) 2
          (take 3 [0, 1, 1, 1])) ! 1) = Some 1 \<and>
   row_of (snd (build_distance_matrix (\<lambda>k. 100) (\<lambda>s q. [Blast_record []]) ''ab'' (1 / 2) 2
          (take 4 [0, 1, 1, 1])) ! 1) = Some 1 \<and>
   already_compared \<lparr>dist_matrix = [[99, 99], [99, 99]], already_compared = ''a'',
      blast_calls = []\<rparr> = already_compared (fst (start_distance_matrix ''ab'' 2)) @ [''ab'' ! 0]"
proof -
  let ?len = "\<lambda>k :: char. 100 :: nat" and ?bl = "\<lambda>(s :: char) (q :: char). [Blast_record []]"
  let ?s' = "\<lparr>dist_matrix = [[99, 99], [99, 99]], already_compared = ''a'', blast_calls = []\<rparr>"
  have st: "distance_matrix_worker ?len ?bl ''ab'' (1 / 2)
     (fst (start_distance_matrix ''ab'' 2)) (Claim 0) = (?s', Test 0 0)"
    by code_simp
  have p1: "row_of (snd (build_distance_matrix ?len ?bl ''ab'' (1 / 2) 2 (take 3 [0, 1, 1, 1])) ! 1) =
      Some 1"
    by code_simp
  have p2: "row_of (snd (build_distance_matrix ?len ?bl ''ab'' (1 / 2) 2 (take 4 [0, 1, 1, 1])) ! 1) =
      Some 1"
    by code_simp
  have rows: "row_of (Test 0 0) = Some 0 \<and> row_of (Claim 0) \<noteq> Some 0" by simp
  note t = row_processed_by_one_worker
    [of ?len ?bl "''ab''" "1 / 2" "fst (start_distance_matrix ''ab'' 2)" "Claim 0" ?s' 0
        "Test 0 0" 2 3 "[0, 1, 1, 1]" 1 4 1]
  from t st rows have "already_compared ?s' =
      already_compared (fst (start_distance_matrix ''ab'' 2)) @ [''ab'' ! 0]"
    by blast
  with st p1 p2 show ?thesis by blast
qed

section \<open>The guided builder and empty inputs: claims\<close>

text \<open>
  C6. With an empty guide list \<^verbatim>\<open>make_guided_clusters\<close> returns the empty cluster list: it
  does so along the schedule in which each worker takes its one step, and whatever it
  returns along any schedule is the empty list. A candidate key whose length fails the
  length test against every guide is in no cluster of the returned list. The length test
  is the one the worker computes, in double precision.
\<close>

theorem guided_clusters_respect_gate:
  "make_guided_clusters seq_len blastn (Some []) all_seq_keys lt num_cores [0..<num_cores] =
     Some (Inr []) \<and>
   (make_guided_clusters seq_len blastn (Some []) all_seq_keys lt num_cores sched = Some r \<longrightarrow>
      r = Inr []) \<and>
   (make_guided_clusters seq_len blastn (Some guides) all_seq_keys lt num_cores sched =
      Some (Inr cl) \<and>
    (\<forall>g\<in>set guides. \<not> guide_gate_passes (guide_length g) (seq_len key) lt) \<longrightarrow>
      (\<forall>c\<in>set cl. key \<notin> set c))"
proof (intro conjI impI)
  show "make_guided_clusters seq_len blastn (Some []) all_seq_keys lt num_cores [0..<num_cores] =
     Some (Inr [])"
    by (simp add: make_guided_clusters_def no_guides_run)
next
  assume a: "make_guided_clusters seq_len blastn (Some []) all_seq_keys lt num_cores sched = Some r"
  have "gate_kept seq_len [] lt
     (build_guided_clusters seq_len blastn [] all_seq_keys lt num_cores sched)"
    by (rule gate_kept_build)
  then have "guide_clusters (fst (build_guided_clusters seq_len blastn [] all_seq_keys lt num_cores sched)) = []"
    by (simp add: gate_kept_def)
  with a show "r = Inr []"
    by (auto simp: make_guided_clusters_def Let_def split: if_splits)
next
  assume a: "make_guided_clusters seq_len blastn (Some guides) all_seq_keys lt num_cores sched =
      Some (Inr cl) \<and>
    (\<forall>g\<in>set guides. \<not> guide_gate_passes (guide_length g) (seq_len key) lt)"
  let ?pool = "build_guided_clusters seq_len blastn guides all_seq_keys lt num_cores sched"
  from a have cl: "cl = guide_clusters (fst ?pool)"
    by (auto simp: make_guided_clusters_def Let_def split: if_splits)
  have inv: "gate_kept seq_len guides lt ?pool" by (rule gate_kept_build)
  show "\<forall>c\<in>set cl. key \<notin> set c"
  proof
    fix c assume "c \<in> set cl"
    then obtain g where g: "g < length cl" and c: "c = cl ! g" by (auto simp: in_set_conv_nth)
    from inv cl g have gl: "g < length guides" by (simp add: gate_kept_def)
    show "key \<notin> set c"
    proof
      assume "key \<in> set c"
      with inv cl c gl have "guide_gate_passes (guide_length (guides ! g)) (seq_len key) lt"
        by (simp add: gate_kept_def)
      moreover have "guides ! g \<in> set guides" using gl by simp
      ultimately show False using a by blast
    qed
  qed
qed

theorem guided_clusters_respect_gate_witness:
  "make_guided_clusters (\<lambda>k. if k = CHR ''a'' then 100 else 160)
     (\<lambda>g k. [Blast_record [Alignment [1 / 1000]]])
     (Some [\<lparr>guide_id = ''g1'', guide_length = 170\<rparr>, \<lparr>guide_id = ''g2'', guide_length = 300\<rparr>])
     ''ab'' (1 / 2) 1 [0, 0, 0, 0, 0, 0, 0, 0, 0] = Some (Inr [''b'', []]) \<and>
   CHR ''a'' \<notin> set ''b'' \<and> CHR ''a'' \<notin> set [] \<and>
   make_guided_clusters (\<lambda>k. if k = CHR ''a'' then 100 else 160)
     (\<lambda>g k. [Blast_record [Alignment [1 / 1000]]]) (Some ([] :: string guide list))
     ''ab'' (1 / 2) 2 [0, 1] = Some (Inr [])"
proof -
  let ?len = "\<lambda>k. if k = CHR ''a'' then 100 else 160 :: nat"
  let ?bl = "\<lambda>(g :: string guide) (k :: char). [Blast_record [Alignment [1 / 1000]]]"
  let ?gs = "[\<lparr>guide_id = ''g1'', guide_length = 170\<rparr>, \<lparr>guide_id = ''g2'', guide_length = 300\<rparr>]"
  have run: "make_guided_clusters ?len ?bl (Some ?gs) ''ab'' (1 / 2) 1 [0, 0, 0, 0, 0, 0, 0, 0, 0] =
      Some (Inr [''b'', []])"
    by code_simp
  have gate: "\<forall>g\<in>set ?gs. \<not> guide_gate_passes (guide_length g) (?len CHR ''a'') (1 / 2)"
    by code_simp
  have empty: "make_guided_clusters ?len ?bl (Some []) ''ab'' (1 / 2) 2 [0, 1] = Some (Inr [])"
    by code_simp
  note t = guided_clusters_respect_gate
    [of ?len ?bl "''ab''" "1 / 2" 1 "[0, 0, 0, 0, 0, 0, 0, 0, 0]" _ ?gs "[''b'', []]" "CHR ''a''"]
  from t run gate have "\<forall>c\<in>set [''b'', []]. CHR ''a'' \<notin> set c" by blast
  then have "CHR ''a'' \<notin> set ''b'' \<and> CHR ''a'' \<notin> set []" by simp
  moreover from guided_clusters_respect_gate
    [of ?len ?bl "''ab''" "1 / 2" 2 "[0, 1]" "Inr []"] empty
  have "Inr [] = (Inr [] :: stop + char list list)" by blast
  ultimately show ?thesis using run empty by blast
qed



end
